theory Spec2Isabelle
  imports Main
begin

section \<open>Common conventions\<close>

text \<open>
  The coordination core is three process-wide singletons (\<open>MessageBus\<close>,
  \<open>AgentRegistry\<close>, \<open>TaskQueue\<close>) and the \<open>OrchestratorAgent\<close>. Each class
  is a record of its private fields; each method takes the state and returns the new one.

  \<^item> \<open>new Date()\<close> and \<open>Date.now()\<close> are the argument \<open>now\<close> (milliseconds) of the
    method that reads the clock.
  \<^item> The generated ids \<open>msg_${Date.now()}_${counter}\<close> and
    \<open>task_${Date.now()}_${counter}\<close> are the pair \<open>(now, counter)\<close>, which determines the
    string and is determined by it.
  \<^item> A JavaScript \<open>Set\<close> of strings iterates in insertion order and holds no duplicate: it
    is a list, extended by \<open>set_add\<close> and shrunk by \<open>set_delete\<close>.
  \<^item> A handler passed to \<open>subscribe\<close> is a closure; the bus model names it by a value of
    the type \<open>'h\<close> and reports which handlers an \<open>emit\<close> calls, in call order. What the
    body of another agent's handler does is outside the class that publishes; a handler is
    taken to return to \<open>emit\<close> (the handlers that agents subscribe are wrapped in an
    \<open>async\<close> function, which does not throw into its caller).
  \<^item> A value of type \<open>unknown\<close> that the core only stores and forwards (a task's payload
    and result, a page) is a value of type \<open>Json\<close>; a \<open>Record<string, unknown>\<close> is the
    list of its entries.
  \<^item> An optional string tested by \<open>!x\<close>, \<open>x || d\<close> or \<open>if (x)\<close> is falsy when it is
    \<open>undefined\<close> and also when it is the empty string.
\<close>

type_synonym gen_id = "nat \<times> nat"

type_synonym Json = string

definition truthy :: "string option \<Rightarrow> bool" where
  "truthy x = (case x of None \<Rightarrow> False | Some s \<Rightarrow> s \<noteq> [])"

definition set_add :: "'a \<Rightarrow> 'a list \<Rightarrow> 'a list" where
  "set_add x xs = (if x \<in> set xs then xs else xs @ [x])"

definition set_delete :: "'a \<Rightarrow> 'a list \<Rightarrow> 'a list" where
  "set_delete x xs = filter (\<lambda>y. y \<noteq> x) xs"

section \<open>MessageBus\<close>

datatype MessageType =
    AGENT_REGISTERED | AGENT_READY | AGENT_ERROR
  | RAW_DATA_RECEIVED | PRODUCT_MODEL_READY
  | QUESTIONS_REQUESTED | QUESTIONS_GENERATED
  | CONTENT_BLOCKS_REQUESTED | CONTENT_BLOCKS_READY
  | TEMPLATE_REQUESTED | TEMPLATE_READY
  | PAGE_ASSEMBLY_REQUESTED | PAGE_ASSEMBLED
  | PIPELINE_START | PIPELINE_COMPLETE | PIPELINE_ERROR
  | TASK_ASSIGNED | TASK_COMPLETED

record 'p AgentMessage =
  msg_id :: gen_id
  msg_type :: MessageType
  source :: string
  target :: "string option"
  payload :: 'p
  timestamp :: nat
  correlationId :: "string option"
  replyTo :: "string option"

text \<open>The \<open>options\<close> argument of \<open>publish\<close>; a call without it is \<open>no_options\<close>.\<close>

record PublishOptions =
  opt_target :: "string option"
  opt_correlationId :: "string option"
  opt_replyTo :: "string option"

definition no_options :: PublishOptions where
  "no_options = \<lparr>opt_target = None, opt_correlationId = None, opt_replyTo = None\<rparr>"

definition to_target :: "string \<Rightarrow> PublishOptions" where
  "to_target a = \<lparr>opt_target = Some a, opt_correlationId = None, opt_replyTo = None\<rparr>"

record 'h Subscription =
  sub_agentId :: string
  sub_messageType :: MessageType
  sub_handler :: 'h

text \<open>
  \<open>listeners\<close> is the state of the \<open>EventEmitter\<close>: per event name, the closures that
  \<open>subscribe\<close> registered with \<open>emitter.on\<close>, in registration order. Each closure
  holds the \<open>agentId\<close> and the \<open>handler\<close> of its \<open>subscribe\<close> call.
\<close>

record ('p, 'h) MessageBus =
  listeners :: "MessageType \<Rightarrow> (string \<times> 'h) list"
  subscriptions :: "MessageType \<rightharpoonup> 'h Subscription list"
  messageHistory :: "'p AgentMessage list"
  messageIdCounter :: nat

definition new_MessageBus :: "('p, 'h) MessageBus" where
  "new_MessageBus =
     \<lparr>listeners = (\<lambda>_. []), subscriptions = Map.empty, messageHistory = [],
      messageIdCounter = 0\<rparr>"

definition subscribe ::
  "string \<Rightarrow> MessageType \<Rightarrow> 'h \<Rightarrow> ('p, 'h) MessageBus \<Rightarrow> ('p, 'h) MessageBus" where
  "subscribe agentId messageType handler b =
     (let subs = (case subscriptions b messageType of None \<Rightarrow> [] | Some ss \<Rightarrow> ss);
          subscription =
            \<lparr>sub_agentId = agentId, sub_messageType = messageType, sub_handler = handler\<rparr>
      in b\<lparr>subscriptions := (subscriptions b)(messageType \<mapsto> subs @ [subscription]),
            listeners := (listeners b)
              (messageType := listeners b messageType @ [(agentId, handler)])\<rparr>)"

definition unsubscribe ::
  "string \<Rightarrow> MessageType \<Rightarrow> ('p, 'h) MessageBus \<Rightarrow> ('p, 'h) MessageBus" where
  "unsubscribe agentId messageType b =
     (case subscriptions b messageType of
        None \<Rightarrow> b
      | Some subs \<Rightarrow>
          b\<lparr>subscriptions := (subscriptions b)
               (messageType \<mapsto> filter (\<lambda>s. sub_agentId s \<noteq> agentId) subs)\<rparr>)"

text \<open>
  The closure registered by \<open>subscribe\<close>:
  \<open>if (!message.target || message.target === agentId) handler(message)\<close>.
\<close>

definition delivers :: "'p AgentMessage \<Rightarrow> string \<Rightarrow> bool" where
  "delivers message agentId = (\<not> truthy (target message) \<or> target message = Some agentId)"

text \<open>\<open>emitter.emit(type, message)\<close>: the handlers called, in order.\<close>

definition emit :: "('p, 'h) MessageBus \<Rightarrow> MessageType \<Rightarrow> 'p AgentMessage \<Rightarrow> 'h list" where
  "emit b ty message = map snd (filter (\<lambda>l. delivers message (fst l)) (listeners b ty))"

definition generateMessageId :: "nat \<Rightarrow> ('p, 'h) MessageBus \<Rightarrow> gen_id \<times> ('p, 'h) MessageBus" where
  "generateMessageId now b =
     (let b' = b\<lparr>messageIdCounter := messageIdCounter b + 1\<rparr>
      in ((now, messageIdCounter b'), b'))"

text \<open>\<open>publish\<close> returns the message, the handlers it called, and the bus.\<close>

definition publish ::
  "string \<Rightarrow> MessageType \<Rightarrow> 'p \<Rightarrow> PublishOptions \<Rightarrow> nat \<Rightarrow> ('p, 'h) MessageBus
     \<Rightarrow> 'p AgentMessage \<times> 'h list \<times> ('p, 'h) MessageBus" where
  "publish src ty pl options now b =
     (let (mid, b1) = generateMessageId now b;
          message =
            \<lparr>msg_id = mid, msg_type = ty, source = src, target = opt_target options,
             payload = pl, timestamp = now, correlationId = opt_correlationId options,
             replyTo = opt_replyTo options\<rparr>;
          b2 = b1\<lparr>messageHistory := messageHistory b1 @ [message]\<rparr>
      in (message, emit b2 ty message, b2))"

definition invoked ::
  "'p AgentMessage \<times> 'h list \<times> ('p, 'h) MessageBus \<Rightarrow> 'h list" where
  "invoked r = fst (snd r)"

definition bus_after ::
  "'p AgentMessage \<times> 'h list \<times> ('p, 'h) MessageBus \<Rightarrow> ('p, 'h) MessageBus" where
  "bus_after r = snd (snd r)"

definition getSubscribers :: "MessageType \<Rightarrow> ('p, 'h) MessageBus \<Rightarrow> string list" where
  "getSubscribers messageType b =
     (case subscriptions b messageType of None \<Rightarrow> [] | Some subs \<Rightarrow> map sub_agentId subs)"

text \<open>A series of \<open>subscribe\<close> calls, first call first.\<close>

fun subscribe_all ::
  "(string \<times> MessageType \<times> 'h) list \<Rightarrow> ('p, 'h) MessageBus \<Rightarrow> ('p, 'h) MessageBus" where
  "subscribe_all [] b = b"
| "subscribe_all ((a, ty, h) # rest) b = subscribe_all rest (subscribe a ty h b)"

section \<open>AgentRegistry\<close>

record AgentCapability =
  cap_name :: string
  cap_description :: string
  inputTypes :: "string list"
  outputTypes :: "string list"

datatype AgentStatus = INITIALIZING | READY | BUSY | ERROR | OFFLINE

type_synonym Metadata = "(string \<times> string) list"

record AgentRecord =
  agent_id :: string
  agent_type :: string
  capabilities :: "AgentCapability list"
  agent_status :: AgentStatus
  registeredAt :: nat
  lastHeartbeat :: nat
  agent_metadata :: Metadata

record AgentRegistry =
  agents :: "string \<rightharpoonup> AgentRecord"
  capabilityIndex :: "string \<rightharpoonup> string list"

definition new_AgentRegistry :: AgentRegistry where
  "new_AgentRegistry = \<lparr>agents = Map.empty, capabilityIndex = Map.empty\<rparr>"

text \<open>The body of the loop of \<open>register\<close> over the capabilities.\<close>

definition index_capability ::
  "string \<Rightarrow> AgentCapability \<Rightarrow> (string \<rightharpoonup> string list) \<Rightarrow> (string \<rightharpoonup> string list)" where
  "index_capability ident capability idx =
     idx(cap_name capability \<mapsto>
           set_add ident (case idx (cap_name capability) of None \<Rightarrow> [] | Some agentSet \<Rightarrow> agentSet))"

text \<open>
  The registry's share of \<open>register\<close>: the record, the agent map and the index. The
  announcement on the bus is \<open>register\<close> of the system below.
\<close>

definition new_record ::
  "string \<Rightarrow> string \<Rightarrow> AgentCapability list \<Rightarrow> Metadata \<Rightarrow> nat \<Rightarrow> AgentRecord" where
  "new_record ident ty caps metadata now =
     \<lparr>agent_id = ident, agent_type = ty, capabilities = caps, agent_status = INITIALIZING,
      registeredAt = now, lastHeartbeat = now, agent_metadata = metadata\<rparr>"

definition registry_register ::
  "string \<Rightarrow> string \<Rightarrow> AgentCapability list \<Rightarrow> Metadata \<Rightarrow> nat \<Rightarrow> AgentRegistry
     \<Rightarrow> AgentRecord \<times> AgentRegistry" where
  "registry_register ident ty caps metadata now r =
     (let rec = new_record ident ty caps metadata now
      in (rec, r\<lparr>agents := (agents r)(ident \<mapsto> rec),
                 capabilityIndex := fold (index_capability ident) caps (capabilityIndex r)\<rparr>))"

text \<open>The body of the loop of \<open>unregister\<close> over the record's capabilities.\<close>

definition unindex_capability ::
  "string \<Rightarrow> AgentCapability \<Rightarrow> (string \<rightharpoonup> string list) \<Rightarrow> (string \<rightharpoonup> string list)" where
  "unindex_capability ident capability idx =
     (case idx (cap_name capability) of
        None \<Rightarrow> idx
      | Some agentSet \<Rightarrow> idx(cap_name capability \<mapsto> set_delete ident agentSet))"

definition unregister :: "string \<Rightarrow> AgentRegistry \<Rightarrow> bool \<times> AgentRegistry" where
  "unregister ident r =
     (case agents r ident of
        None \<Rightarrow> (False, r)
      | Some rec \<Rightarrow>
          (True,
           r\<lparr>capabilityIndex :=
                fold (unindex_capability ident) (capabilities rec) (capabilityIndex r),
              agents := (agents r)(ident := None)\<rparr>))"

text \<open>The registry's share of \<open>updateStatus\<close>; the bus message is added below.\<close>

definition registry_updateStatus ::
  "string \<Rightarrow> AgentStatus \<Rightarrow> nat \<Rightarrow> AgentRegistry \<Rightarrow> AgentRegistry" where
  "registry_updateStatus ident st now r =
     (case agents r ident of
        None \<Rightarrow> r
      | Some rec \<Rightarrow>
          r\<lparr>agents := (agents r)(ident \<mapsto> rec\<lparr>agent_status := st, lastHeartbeat := now\<rparr>)\<rparr>)"

definition heartbeat :: "string \<Rightarrow> nat \<Rightarrow> AgentRegistry \<Rightarrow> AgentRegistry" where
  "heartbeat ident now r =
     (case agents r ident of
        None \<Rightarrow> r
      | Some rec \<Rightarrow> r\<lparr>agents := (agents r)(ident \<mapsto> rec\<lparr>lastHeartbeat := now\<rparr>)\<rparr>)"

definition getAgent :: "string \<Rightarrow> AgentRegistry \<Rightarrow> AgentRecord option" where
  "getAgent ident r = agents r ident"

definition findByCapability :: "string \<Rightarrow> AgentRegistry \<Rightarrow> AgentRecord list" where
  "findByCapability capabilityName r =
     (case capabilityIndex r capabilityName of
        None \<Rightarrow> []
      | Some agentIds \<Rightarrow> List.map_filter (agents r) agentIds)"

definition findReadyByCapability :: "string \<Rightarrow> AgentRegistry \<Rightarrow> AgentRecord list" where
  "findReadyByCapability capabilityName r =
     filter (\<lambda>a. agent_status a = READY) (findByCapability capabilityName r)"

text \<open>
  Every record is stored under its own id: \<open>register\<close> writes \<open>agents.set(id, record)\<close>
  with \<open>record.id = id\<close>, and no method changes a record's id.
\<close>

definition registry_keyed :: "AgentRegistry \<Rightarrow> bool" where
  "registry_keyed r = (\<forall>k rec. agents r k = Some rec \<longrightarrow> agent_id rec = k)"

text \<open>A record advertises a capability when its list holds a capability of that name.\<close>

definition advertises :: "string \<Rightarrow> AgentRecord \<Rightarrow> bool" where
  "advertises capabilityName rec =
     list_ex (\<lambda>capability. cap_name capability = capabilityName) (capabilities rec)"

text \<open>
  The index agrees with the records when every id listed under a name is the id of a
  registered record that advertises the name. \<open>register\<close> adds the id to the entries of
  the capabilities it is given and overwrites the record; it does not take the id out of
  the entries of the capabilities that an earlier record of the same id had.
\<close>

definition index_sound :: "AgentRegistry \<Rightarrow> bool" where
  "index_sound r =
     (\<forall>c ids i. capabilityIndex r c = Some ids \<longrightarrow> i \<in> set ids \<longrightarrow>
        (\<exists>rec. agents r i = Some rec \<and> advertises c rec))"

section \<open>TaskQueue\<close>

datatype TaskPriority = LOW | NORMAL | HIGH | CRITICAL

fun priority_value :: "TaskPriority \<Rightarrow> nat" where
  "priority_value LOW = 0"
| "priority_value NORMAL = 1"
| "priority_value HIGH = 2"
| "priority_value CRITICAL = 3"

datatype TaskStatus = PENDING | ASSIGNED | IN_PROGRESS | COMPLETED | FAILED | CANCELLED

record Task =
  task_id :: gen_id
  task_type :: string
  requiredCapability :: string
  task_payload :: Json
  priority :: TaskPriority
  task_status :: TaskStatus
  assignedTo :: "string option"
  createdAt :: nat
  startedAt :: "nat option"
  completedAt :: "nat option"
  task_result :: "Json option"
  task_error :: "string option"
  retryCount :: nat
  maxRetries :: int
  dependencies :: "gen_id list"
  task_metadata :: Metadata

record TaskResult =
  res_taskId :: gen_id
  success :: bool
  res_data :: "Json option"
  res_error :: "string option"
  executionTimeMs :: int

text \<open>The \<open>options\<close> argument of \<open>submit\<close>; \<open>default_options\<close> is a call without it.\<close>

record SubmitOptions =
  sub_priority :: "TaskPriority option"
  sub_dependencies :: "gen_id list option"
  sub_maxRetries :: "int option"
  sub_metadata :: "Metadata option"

definition default_options :: SubmitOptions where
  "default_options =
     \<lparr>sub_priority = None, sub_dependencies = None, sub_maxRetries = None,
      sub_metadata = None\<rparr>"

text \<open>The payloads that the registry and the queue put on the bus.\<close>

datatype Payload =
    AgentRegisteredInfo string string "string list"
  | AgentReadyInfo string string
  | TaskAssignedInfo gen_id string Json Metadata
  | TaskCompletedInfo gen_id TaskResult

text \<open>
  The handlers on the shared bus: the closure that the queue's constructor subscribes to
  \<open>TASK_COMPLETED\<close>, and the handlers of other agents, named by a number.
\<close>

datatype Handler = TaskCompletionHandler | AgentHandler nat

record TaskQueue =
  tasks :: "gen_id \<rightharpoonup> Task"
  pendingQueue :: "gen_id list"
  taskIdCounter :: nat

text \<open>The three singletons: the registry and the queue hold the same bus, the queue holds
  the registry.\<close>

record System =
  bus :: "(Payload, Handler) MessageBus"
  registry :: AgentRegistry
  queue :: TaskQueue

text \<open>
  A \<open>publish\<close> of the registry or of the queue whose listeners are other agents' handlers
  (\<open>AGENT_REGISTERED\<close>, \<open>AGENT_READY\<close>, \<open>TASK_ASSIGNED\<close>): the message joins the history
  and \<open>emit\<close> calls the handlers. Their bodies belong to the agents; the registry and the
  queue are given here as they stand when no such handler calls back into them.
\<close>

definition announce ::
  "string \<Rightarrow> MessageType \<Rightarrow> Payload \<Rightarrow> PublishOptions \<Rightarrow> nat \<Rightarrow> System \<Rightarrow> System" where
  "announce src ty pl options now s = s\<lparr>bus := bus_after (publish src ty pl options now (bus s))\<rparr>"

definition register ::
  "string \<Rightarrow> string \<Rightarrow> AgentCapability list \<Rightarrow> Metadata \<Rightarrow> nat \<Rightarrow> System
     \<Rightarrow> AgentRecord \<times> System" where
  "register ident ty caps metadata now s =
     (let (rec, r) = registry_register ident ty caps metadata now (registry s)
      in (rec, announce ''registry'' AGENT_REGISTERED
                 (AgentRegisteredInfo ident ty (map cap_name caps)) no_options now
                 (s\<lparr>registry := r\<rparr>)))"

definition updateStatus :: "string \<Rightarrow> AgentStatus \<Rightarrow> nat \<Rightarrow> System \<Rightarrow> System" where
  "updateStatus ident st now s =
     (case agents (registry s) ident of
        None \<Rightarrow> s
      | Some rec \<Rightarrow>
          (let s1 = s\<lparr>registry := registry_updateStatus ident st now (registry s)\<rparr>
           in if st = READY
              then announce ''registry'' AGENT_READY (AgentReadyInfo ident (agent_type rec))
                     no_options now s1
              else s1))"

definition setupMessageHandlers :: "System \<Rightarrow> System" where
  "setupMessageHandlers s =
     s\<lparr>bus := subscribe ''task-queue'' TASK_COMPLETED TaskCompletionHandler (bus s)\<rparr>"

definition new_TaskQueue :: TaskQueue where
  "new_TaskQueue = \<lparr>tasks = Map.empty, pendingQueue = [], taskIdCounter = 0\<rparr>"

definition new_System :: System where
  "new_System =
     setupMessageHandlers
       \<lparr>bus = new_MessageBus, registry = new_AgentRegistry, queue = new_TaskQueue\<rparr>"

definition generateTaskId :: "nat \<Rightarrow> TaskQueue \<Rightarrow> gen_id \<times> TaskQueue" where
  "generateTaskId now q =
     (let q' = q\<lparr>taskIdCounter := taskIdCounter q + 1\<rparr>
      in ((now, taskIdCounter q'), q'))"

text \<open>
  The loop of \<open>enqueue\<close>: the new id goes before the first entry that names a known task
  of strictly lower priority (\<open>splice(i, 0, taskId)\<close>), or to the end (\<open>push\<close>).
\<close>

definition lower_priority :: "(gen_id \<rightharpoonup> Task) \<Rightarrow> Task \<Rightarrow> gen_id \<Rightarrow> bool" where
  "lower_priority ts task x =
     (case ts x of
        None \<Rightarrow> False
      | Some existingTask \<Rightarrow>
          priority_value (priority task) > priority_value (priority existingTask))"

fun insert_by_priority ::
  "(gen_id \<rightharpoonup> Task) \<Rightarrow> Task \<Rightarrow> gen_id \<Rightarrow> gen_id list \<Rightarrow> gen_id list" where
  "insert_by_priority ts task taskId [] = [taskId]"
| "insert_by_priority ts task taskId (x # xs) =
     (if lower_priority ts task x then taskId # x # xs
      else x # insert_by_priority ts task taskId xs)"

definition enqueue :: "gen_id \<Rightarrow> TaskQueue \<Rightarrow> TaskQueue" where
  "enqueue taskId q =
     (case tasks q taskId of
        None \<Rightarrow> q
      | Some task \<Rightarrow>
          q\<lparr>pendingQueue := insert_by_priority (tasks q) task taskId (pendingQueue q)\<rparr>)"

definition submit ::
  "string \<Rightarrow> string \<Rightarrow> Json \<Rightarrow> SubmitOptions \<Rightarrow> nat \<Rightarrow> System \<Rightarrow> Task \<times> System" where
  "submit ty cap pl options now s =
     (let (tid, q1) = generateTaskId now (queue s);
          task =
            \<lparr>task_id = tid, task_type = ty, requiredCapability = cap, task_payload = pl,
             priority = (case sub_priority options of None \<Rightarrow> NORMAL | Some p \<Rightarrow> p),
             task_status = PENDING, assignedTo = None, createdAt = now, startedAt = None,
             completedAt = None, task_result = None, task_error = None, retryCount = 0,
             maxRetries = (case sub_maxRetries options of None \<Rightarrow> 3 | Some m \<Rightarrow> m),
             dependencies = (case sub_dependencies options of None \<Rightarrow> [] | Some d \<Rightarrow> d),
             task_metadata = (case sub_metadata options of None \<Rightarrow> [] | Some m \<Rightarrow> m)\<rparr>;
          q2 = q1\<lparr>tasks := (tasks q1)(task_id task \<mapsto> task)\<rparr>
      in (task, s\<lparr>queue := enqueue (task_id task) q2\<rparr>))"

fun areDependenciesMet :: "(gen_id \<rightharpoonup> Task) \<Rightarrow> gen_id list \<Rightarrow> bool" where
  "areDependenciesMet ts [] = True"
| "areDependenciesMet ts (depId # rest) =
     (case ts depId of
        None \<Rightarrow> False
      | Some depTask \<Rightarrow>
          if task_status depTask \<noteq> COMPLETED then False else areDependenciesMet ts rest)"

text \<open>
  One round of the loop of \<open>processQueue\<close>, for the backlog entry \<open>taskId\<close>; the second
  component is \<open>assignedTasks\<close>.
\<close>

definition assign_step :: "nat \<Rightarrow> gen_id \<Rightarrow> System \<times> gen_id list \<Rightarrow> System \<times> gen_id list" where
  "assign_step now taskId st =
     (let s = fst st; assignedTasks = snd st
      in case tasks (queue s) taskId of
           None \<Rightarrow> st
         | Some task \<Rightarrow>
             if task_status task \<noteq> PENDING then st
             else if \<not> areDependenciesMet (tasks (queue s)) (dependencies task) then st
             else
               (case findReadyByCapability (requiredCapability task) (registry s) of
                  [] \<Rightarrow> st
                | agent # others \<Rightarrow>
                    (let s1 = s\<lparr>queue := (queue s)\<lparr>tasks := (tasks (queue s))
                                  (taskId \<mapsto> task\<lparr>task_status := ASSIGNED,
                                     assignedTo := Some (agent_id agent)\<rparr>)\<rparr>\<rparr>;
                         s2 = updateStatus (agent_id agent) BUSY now s1;
                         s3 = announce ''task-queue'' TASK_ASSIGNED
                                (TaskAssignedInfo (task_id task) (task_type task)
                                   (task_payload task) (task_metadata task))
                                (to_target (agent_id agent)) now s2
                     in (s3, assignedTasks @ [taskId]))))"

definition processQueue :: "nat \<Rightarrow> System \<Rightarrow> System" where
  "processQueue now s =
     (let (s1, assignedTasks) = fold (assign_step now) (pendingQueue (queue s)) (s, [])
      in s1\<lparr>queue := (queue s1)
             \<lparr>pendingQueue :=
                filter (\<lambda>i. i \<notin> set assignedTasks) (pendingQueue (queue s1))\<rparr>\<rparr>)"

text \<open>
  The branches of \<open>handleTaskCompletion\<close> that write the task: the task after the outcome,
  and whether it is enqueued again.
\<close>

definition record_outcome :: "TaskResult \<Rightarrow> nat \<Rightarrow> Task \<Rightarrow> Task \<times> bool" where
  "record_outcome result now task =
     (if success result then
        (task\<lparr>task_status := COMPLETED, task_result := res_data result,
              completedAt := Some now\<rparr>, False)
      else
        (let task1 = task\<lparr>retryCount := retryCount task + 1\<rparr>
         in if int (retryCount task1) < maxRetries task1
            then (task1\<lparr>task_status := PENDING, assignedTo := None\<rparr>, True)
            else (task1\<lparr>task_status := FAILED, task_error := res_error result,
                        completedAt := Some now\<rparr>, False)))"

definition handleTaskCompletion :: "gen_id \<Rightarrow> TaskResult \<Rightarrow> nat \<Rightarrow> System \<Rightarrow> System" where
  "handleTaskCompletion taskId result now s =
     (case tasks (queue s) taskId of
        None \<Rightarrow> s
      | Some task0 \<Rightarrow>
          (let (task, again) = record_outcome result now task0;
               q1 = (queue s)\<lparr>tasks := (tasks (queue s))(taskId \<mapsto> task)\<rparr>;
               s1 = s\<lparr>queue := (if again then enqueue taskId q1 else q1)\<rparr>;
               s2 = (case assignedTo task of
                       None \<Rightarrow> s1
                     | Some worker \<Rightarrow>
                         if worker \<noteq> [] then updateStatus worker READY now s1 else s1)
           in processQueue now s2))"

definition startTask :: "gen_id \<Rightarrow> nat \<Rightarrow> System \<Rightarrow> System" where
  "startTask taskId now s =
     (case tasks (queue s) taskId of
        None \<Rightarrow> s
      | Some task \<Rightarrow>
          if task_status task = ASSIGNED
          then s\<lparr>queue := (queue s)\<lparr>tasks := (tasks (queue s))
                 (taskId \<mapsto> task\<lparr>task_status := IN_PROGRESS, startedAt := Some now\<rparr>)\<rparr>\<rparr>
          else s)"

text \<open>
  The listeners of \<open>TASK_COMPLETED\<close>: the queue's own closure destructures the payload
  and calls \<open>handleTaskCompletion\<close>; another agent's handler leaves registry and queue as
  they are.
\<close>

definition dispatch :: "Payload AgentMessage \<Rightarrow> nat \<Rightarrow> Handler \<Rightarrow> System \<Rightarrow> System" where
  "dispatch message now h s =
     (case h of
        AgentHandler n \<Rightarrow> s
      | TaskCompletionHandler \<Rightarrow>
          (case payload message of
             TaskCompletedInfo taskId result \<Rightarrow> handleTaskCompletion taskId result now s
           | _ \<Rightarrow> s))"

definition publish_completed :: "string \<Rightarrow> gen_id \<Rightarrow> TaskResult \<Rightarrow> nat \<Rightarrow> System \<Rightarrow> System" where
  "publish_completed src taskId taskResult now s =
     (let r = publish src TASK_COMPLETED (TaskCompletedInfo taskId taskResult) no_options now
                (bus s)
      in fold (dispatch (fst r) now) (invoked r) (s\<lparr>bus := bus_after r\<rparr>))"

text \<open>\<open>task.assignedTo || 'unknown'\<close>\<close>

definition source_of :: "Task \<Rightarrow> string" where
  "source_of task =
     (case assignedTo task of
        None \<Rightarrow> ''unknown''
      | Some worker \<Rightarrow> if worker \<noteq> [] then worker else ''unknown'')"

definition executionTime :: "Task \<Rightarrow> nat \<Rightarrow> int" where
  "executionTime task now = (case startedAt task of None \<Rightarrow> 0 | Some t \<Rightarrow> int now - int t)"

definition completeTask :: "gen_id \<Rightarrow> Json \<Rightarrow> nat \<Rightarrow> System \<Rightarrow> System" where
  "completeTask taskId res now s =
     (case tasks (queue s) taskId of
        None \<Rightarrow> s
      | Some task \<Rightarrow>
          publish_completed (source_of task) taskId
            \<lparr>res_taskId = taskId, success = True, res_data = Some res, res_error = None,
             executionTimeMs = executionTime task now\<rparr> now s)"

definition failTask :: "gen_id \<Rightarrow> string \<Rightarrow> nat \<Rightarrow> System \<Rightarrow> System" where
  "failTask taskId err now s =
     (case tasks (queue s) taskId of
        None \<Rightarrow> s
      | Some task \<Rightarrow>
          publish_completed (source_of task) taskId
            \<lparr>res_taskId = taskId, success = False, res_data = None, res_error = Some err,
             executionTimeMs = executionTime task now\<rparr> now s)"

definition getTask :: "gen_id \<Rightarrow> System \<Rightarrow> Task option" where
  "getTask taskId s = tasks (queue s) taskId"

text \<open>The failure outcome that \<open>failTask\<close> reports.\<close>

definition failure :: "gen_id \<Rightarrow> string \<Rightarrow> TaskResult" where
  "failure taskId err =
     \<lparr>res_taskId = taskId, success = False, res_data = None, res_error = Some err,
      executionTimeMs = 0\<rparr>"

text \<open>The task ids of the \<open>TASK_ASSIGNED\<close> messages in the bus history, oldest first.\<close>

fun assigned_id :: "Payload AgentMessage \<Rightarrow> gen_id list" where
  "assigned_id message =
     (case payload message of TaskAssignedInfo taskId ty pl md \<Rightarrow> [taskId] | _ \<Rightarrow> [])"

definition assignment_order :: "System \<Rightarrow> gen_id list" where
  "assignment_order s = concat (map assigned_id (messageHistory (bus s)))"

text \<open>What one scan may do to the task map: each task is left as it is, or a \<open>PENDING\<close>
  task becomes \<open>ASSIGNED\<close> to some worker.\<close>

definition only_assigns :: "(gen_id \<rightharpoonup> Task) \<Rightarrow> (gen_id \<rightharpoonup> Task) \<Rightarrow> bool" where
  "only_assigns ts ts' \<longleftrightarrow>
     (\<forall>i. ts' i = ts i \<or>
        (\<exists>t w. ts i = Some t \<and> task_status t = PENDING \<and>
           ts' i = Some (t\<lparr>task_status := ASSIGNED, assignedTo := Some w\<rparr>)))"

text \<open>Among the listeners of \<open>TASK_COMPLETED\<close> the queue's closure stands once, as the
  queue's constructor leaves it; the other listeners are handlers of other agents.\<close>

definition queue_listening :: "System \<Rightarrow> bool" where
  "queue_listening s \<longleftrightarrow>
     filter (\<lambda>h. h = TaskCompletionHandler) (map snd (listeners (bus s) TASK_COMPLETED))
       = [TaskCompletionHandler]"

text \<open>Every task is stored under its own id.\<close>

definition tasks_keyed :: "TaskQueue \<Rightarrow> bool" where
  "tasks_keyed q \<longleftrightarrow> (\<forall>k t. tasks q k = Some t \<longrightarrow> task_id t = k)"

text \<open>\<open>assignedTasks\<close> at the end of the loop of \<open>processQueue\<close>: the tasks one scan
  assigns, in the order of their assignment.\<close>

definition assigned_by_scan :: "nat \<Rightarrow> System \<Rightarrow> gen_id list" where
  "assigned_by_scan now s = snd (fold (assign_step now) (pendingQueue (queue s)) (s, []))"

text \<open>Views of a task and of a worker, for stating results.\<close>

definition status_and_retries :: "Task option \<Rightarrow> (TaskStatus \<times> nat) option" where
  "status_and_retries t = map_option (\<lambda>t. (task_status t, retryCount t)) t"

text \<open>The system as the loop of \<open>processQueue\<close> finds it when it reaches the backlog entry
  \<open>taskId\<close>: the entries before it have had their round.\<close>

definition scan_state :: "nat \<Rightarrow> gen_id \<Rightarrow> System \<Rightarrow> System" where
  "scan_state now taskId s =
     fst (fold (assign_step now) (takeWhile (\<lambda>x. x \<noteq> taskId) (pendingQueue (queue s))) (s, []))"

text \<open>The priority of a backlog entry, as a number; the backlog is ordered when the numbers
  never rise from front to back.\<close>

definition backlog_priority :: "(gen_id \<rightharpoonup> Task) \<Rightarrow> gen_id \<Rightarrow> nat" where
  "backlog_priority ts x = (case ts x of None \<Rightarrow> 0 | Some t \<Rightarrow> priority_value (priority t))"

definition backlog_sorted :: "TaskQueue \<Rightarrow> bool" where
  "backlog_sorted q =
     sorted_wrt (\<lambda>x y. backlog_priority (tasks q) x \<ge> backlog_priority (tasks q) y)
       (pendingQueue q)"

text \<open>What every queue the methods build satisfies: the backlog names known tasks, no task id
  is ahead of the counter, and the backlog is ordered.\<close>

definition queue_inv :: "TaskQueue \<Rightarrow> bool" where
  "queue_inv q \<longleftrightarrow>
     set (pendingQueue q) \<subseteq> dom (tasks q) \<and>
     (\<forall>n c. (n, c) \<in> dom (tasks q) \<longrightarrow> c \<le> taskIdCounter q) \<and>
     backlog_sorted q"

definition system_inv :: "System \<Rightarrow> bool" where
  "system_inv s \<longleftrightarrow> registry_keyed (registry s) \<and> queue_inv (queue s)"

text \<open>The systems that the methods of the registry and of the queue build from the
  constructors' state. Other agents may subscribe handlers of their own, publish completion
  messages of their own making, and publish on the other topics.\<close>

inductive system_reachable :: "System \<Rightarrow> bool" where
  reach_new_System: "system_reachable new_System"
| reach_sys_register:
    "system_reachable s \<Longrightarrow> system_reachable (snd (register ident ty caps metadata now s))"
| reach_sys_unregister:
    "system_reachable s \<Longrightarrow>
     system_reachable (s\<lparr>registry := snd (unregister ident (registry s))\<rparr>)"
| reach_sys_updateStatus:
    "system_reachable s \<Longrightarrow> system_reachable (updateStatus ident st now s)"
| reach_sys_heartbeat:
    "system_reachable s \<Longrightarrow> system_reachable (s\<lparr>registry := heartbeat ident now (registry s)\<rparr>)"
| reach_sys_subscribe:
    "system_reachable s \<Longrightarrow>
     system_reachable (s\<lparr>bus := subscribe agentId ty (AgentHandler n) (bus s)\<rparr>)"
| reach_submit:
    "system_reachable s \<Longrightarrow> system_reachable (snd (submit ty cap pl options now s))"
| reach_processQueue: "system_reachable s \<Longrightarrow> system_reachable (processQueue now s)"
| reach_startTask: "system_reachable s \<Longrightarrow> system_reachable (startTask taskId now s)"
| reach_completeTask:
    "system_reachable s \<Longrightarrow> system_reachable (completeTask taskId res now s)"
| reach_failTask: "system_reachable s \<Longrightarrow> system_reachable (failTask taskId err now s)"
| reach_publish_completed:
    "system_reachable s \<Longrightarrow> system_reachable (publish_completed src taskId result now s)"
| reach_announce:
    "system_reachable s \<Longrightarrow> ty \<noteq> TASK_COMPLETED \<Longrightarrow>
     system_reachable (announce src ty pl options now s)"

text \<open>The systems the methods build when \<open>register\<close> is never called with an id that is
  registered at the call.\<close>

inductive registered_once :: "System \<Rightarrow> bool" where
  once_new_System: "registered_once new_System"
| once_register:
    "registered_once s \<Longrightarrow> agents (registry s) ident = None \<Longrightarrow>
     registered_once (snd (register ident ty caps metadata now s))"
| once_unregister:
    "registered_once s \<Longrightarrow>
     registered_once (s\<lparr>registry := snd (unregister ident (registry s))\<rparr>)"
| once_updateStatus:
    "registered_once s \<Longrightarrow> registered_once (updateStatus ident st now s)"
| once_heartbeat:
    "registered_once s \<Longrightarrow> registered_once (s\<lparr>registry := heartbeat ident now (registry s)\<rparr>)"
| once_subscribe:
    "registered_once s \<Longrightarrow>
     registered_once (s\<lparr>bus := subscribe agentId ty (AgentHandler n) (bus s)\<rparr>)"
| once_submit:
    "registered_once s \<Longrightarrow> registered_once (snd (submit ty cap pl options now s))"
| once_processQueue: "registered_once s \<Longrightarrow> registered_once (processQueue now s)"
| once_startTask: "registered_once s \<Longrightarrow> registered_once (startTask taskId now s)"
| once_completeTask:
    "registered_once s \<Longrightarrow> registered_once (completeTask taskId res now s)"
| once_failTask: "registered_once s \<Longrightarrow> registered_once (failTask taskId err now s)"
| once_publish_completed:
    "registered_once s \<Longrightarrow> registered_once (publish_completed src taskId result now s)"
| once_announce:
    "registered_once s \<Longrightarrow> ty \<noteq> TASK_COMPLETED \<Longrightarrow>
     registered_once (announce src ty pl options now s)"

definition worker_status :: "string \<Rightarrow> System \<Rightarrow> AgentStatus option" where
  "worker_status ident s = map_option agent_status (getAgent ident (registry s))"

definition priority_of :: "System \<Rightarrow> gen_id \<Rightarrow> TaskPriority option" where
  "priority_of s taskId = map_option priority (getTask taskId s)"

section \<open>OrchestratorAgent\<close>

text \<open>
  Product data, pages and the other payloads the coordinator only stores and forwards are
  values of type \<open>Json\<close>. The \<open>Promise\<close> of \<open>runPipeline\<close> is the pair of its
  callbacks: \<open>resolveCompletion\<close> and \<open>rejectCompletion\<close> say whether the field is set,
  and \<open>settled\<close> lists the calls made to the callbacks of the current promise, oldest
  first (a new promise starts with none). \<open>outbox\<close> lists the messages
  the agent published, each with its payload as it reads at the publish.
  \<open>console.log\<close> is left out. A \<open>Date\<close> and its ISO text are the reading of the clock
  they were made from, and a method reads the clock once. A count interpolated into a text
  is written in decimal digits, as JavaScript writes a whole number below \<open>10^21\<close>.
\<close>

function string_of_nat :: "nat \<Rightarrow> string" where
  "string_of_nat n =
     (if n < 10 then [''0123456789'' ! n]
      else string_of_nat (n div 10) @ [''0123456789'' ! (n mod 10)])"
  by pat_completeness auto

termination
  by (relation "measure (\<lambda>n. n)") simp_all

declare string_of_nat.simps [simp del]

datatype PipelineStatus = idle | running | completed | failed

datatype LogStatus = log_triggered | log_completed | log_failed

record ExecutionLogEntry =
  log_step :: nat
  log_event :: string
  log_agentId :: string
  log_status :: LogStatus
  log_timestamp :: nat
  log_message :: "string option"

record Pages =
  faq :: "Json option"
  product_page :: "Json option"
  comparison :: "Json option"

record PipelineState =
  p_status :: PipelineStatus
  p_startedAt :: "nat option"
  p_completedAt :: "nat option"
  rawData :: "Json option"
  product :: "Json option"
  questionSet :: "Json option"
  contentBlocks :: "Json option"
  pages :: Pages
  expectedPages :: "string list"
  receivedPages :: "string list"

record Summary =
  totalEvents :: nat
  sum_startedAt :: nat
  sum_completedAt :: nat
  durationMs :: int
  pagesGenerated :: "string list"

text \<open>
  The object that \<open>createOutput\<close> builds has three fields. Its \<open>pages\<close> and
  \<open>executionLog\<close> are the agent's own pages object and log array, not copies: whoever
  holds the output finds in them what the agent has written up to the moment of reading.
  Its \<open>summary\<close> is built afresh, \<open>pagesGenerated\<close> by \<open>Array.from\<close>. So the call
  \<open>resolveCompletion(output)\<close> is recorded as \<open>Resolved\<close> with the summary, and
  \<open>OrchestratorOutput\<close> is what a reader of the output finds (\<open>read_output\<close> below).
\<close>

record OrchestratorOutput =
  out_pages :: Pages
  out_executionLog :: "ExecutionLogEntry list"
  out_summary :: Summary

datatype Settlement = Resolved Summary | Rejected string

datatype OrchMessage =
    PipelineStartMsg "string list" nat
  | RawDataReceivedMsg Json
  | PipelineCompleteMsg Pages Summary

record OrchestratorAgent =
  orch_id :: string
  pipelineState :: PipelineState
  executionLog :: "ExecutionLogEntry list"
  stepCounter :: nat
  resolveCompletion :: bool
  rejectCompletion :: bool
  outbox :: "(MessageType \<times> OrchMessage) list"
  settled :: "Settlement list"

text \<open>A message as \<open>onMessage\<close> reads it: the type with the payload fields the handler of
  that type destructures, and the message's source.\<close>

datatype Incoming =
    ProductModelReady string Json string
  | QuestionsGenerated string Json nat
  | ContentBlocksReady string Json
  | PageAssembled string string Json
  | AgentError string string
  | OtherMessage MessageType

datatype error = TypeError

definition createInitialState :: PipelineState where
  "createInitialState =
     \<lparr>p_status = idle, p_startedAt = None, p_completedAt = None, rawData = None,
      product = None, questionSet = None, contentBlocks = None,
      pages = \<lparr>faq = None, product_page = None, comparison = None\<rparr>,
      expectedPages = [], receivedPages = []\<rparr>"

definition new_OrchestratorAgent :: "string \<Rightarrow> OrchestratorAgent" where
  "new_OrchestratorAgent ident =
     \<lparr>orch_id = ident, pipelineState = createInitialState, executionLog = [],
      stepCounter = 0, resolveCompletion = False, rejectCompletion = False, outbox = [],
      settled = []\<rparr>"

definition logEvent ::
  "string \<Rightarrow> string \<Rightarrow> LogStatus \<Rightarrow> string option \<Rightarrow> nat \<Rightarrow> OrchestratorAgent
     \<Rightarrow> OrchestratorAgent" where
  "logEvent event agentId st message now a =
     (let a1 = a\<lparr>stepCounter := stepCounter a + 1\<rparr>
      in a1\<lparr>executionLog := executionLog a1 @
              [\<lparr>log_step = stepCounter a1, log_event = event, log_agentId = agentId,
                log_status = st, log_timestamp = now, log_message = message\<rparr>]\<rparr>)"

definition orch_publish :: "MessageType \<Rightarrow> OrchMessage \<Rightarrow> OrchestratorAgent \<Rightarrow> OrchestratorAgent" where
  "orch_publish ty pl a = a\<lparr>outbox := outbox a @ [(ty, pl)]\<rparr>"

definition runPipeline :: "Json \<Rightarrow> string list \<Rightarrow> nat \<Rightarrow> OrchestratorAgent \<Rightarrow> OrchestratorAgent" where
  "runPipeline raw pagesToGenerate now a =
     (let a1 = a\<lparr>resolveCompletion := True, rejectCompletion := True, settled := []\<rparr>;
          a2 = a1\<lparr>pipelineState := createInitialState, executionLog := [], stepCounter := 0\<rparr>;
          a3 = a2\<lparr>pipelineState := (pipelineState a2)
                 \<lparr>p_status := running, p_startedAt := Some now, rawData := Some raw,
                  expectedPages := fold set_add pagesToGenerate
                    (expectedPages (pipelineState a2))\<rparr>\<rparr>;
          a4 = logEvent ''pipeline-start'' (orch_id a3) log_triggered (Some ''Pipeline started'')
                 now a3;
          a5 = orch_publish PIPELINE_START (PipelineStartMsg pagesToGenerate now) a4;
          a6 = orch_publish RAW_DATA_RECEIVED (RawDataReceivedMsg raw) a5
      in logEvent ''raw-data-published'' (orch_id a6) log_completed
           (Some ''Raw data published to message bus'') now a6)"

text \<open>\<open>startedAt!\<close> asserts a value that only \<open>runPipeline\<close> sets: reading
  \<open>getTime()\<close> of \<open>undefined\<close> throws. The result is the summary of the output; the
  output's other two fields are the agent's own objects.\<close>

definition createOutput :: "nat \<Rightarrow> OrchestratorAgent \<Rightarrow> error + Summary" where
  "createOutput now a =
     (case p_startedAt (pipelineState a) of
        None \<Rightarrow> Inl TypeError
      | Some started \<Rightarrow>
          (let ended =
                 (case p_completedAt (pipelineState a) of None \<Rightarrow> now | Some c \<Rightarrow> c)
           in Inr \<lparr>totalEvents = length (executionLog a), sum_startedAt = started,
                   sum_completedAt = ended,
                   durationMs = int ended - int started,
                   pagesGenerated = receivedPages (pipelineState a)\<rparr>))"

text \<open>What a reader finds in an output with the summary \<open>summ\<close> while the agent is in the
  state \<open>a\<close> of the run that built it. (\<open>runPipeline\<close> gives the agent a new pages object
  and a new log array, and starts a new promise.)\<close>

definition read_output :: "OrchestratorAgent \<Rightarrow> Summary \<Rightarrow> OrchestratorOutput" where
  "read_output a summ =
     \<lparr>out_pages = pages (pipelineState a), out_executionLog = executionLog a,
      out_summary = summ\<rparr>"

definition allReceived :: "PipelineState \<Rightarrow> bool" where
  "allReceived st = list_all (\<lambda>p. p \<in> set (receivedPages st)) (expectedPages st)"

definition checkPipelineCompletion :: "nat \<Rightarrow> OrchestratorAgent \<Rightarrow> error + OrchestratorAgent" where
  "checkPipelineCompletion now a =
     (if allReceived (pipelineState a) \<and> p_status (pipelineState a) = running then
        (let a1 = a\<lparr>pipelineState := (pipelineState a)
                     \<lparr>p_status := completed, p_completedAt := Some now\<rparr>\<rparr>
         in case createOutput now a1 of
              Inl e \<Rightarrow> Inl e
            | Inr output_summary \<Rightarrow>
                (let a2 = logEvent ''pipeline-complete'' (orch_id a1) log_completed
                            (Some (''All '' @ string_of_nat (length (expectedPages (pipelineState a1)))
                                   @ '' pages generated'')) now a1;
                     a3 = orch_publish PIPELINE_COMPLETE
                            (PipelineCompleteMsg (pages (pipelineState a2)) output_summary) a2
                 in Inr (if resolveCompletion a3
                         then a3\<lparr>settled := settled a3 @ [Resolved output_summary]\<rparr>
                         else a3)))
      else Inr a)"

text \<open>The \<open>switch\<close> of \<open>handlePageAssembled\<close>: a page type other than the three is not
  stored.\<close>

definition store_page :: "string \<Rightarrow> Json \<Rightarrow> Pages \<Rightarrow> Pages" where
  "store_page pageType page ps =
     (if pageType = ''faq'' then ps\<lparr>faq := Some page\<rparr>
      else if pageType = ''product'' then ps\<lparr>product_page := Some page\<rparr>
      else if pageType = ''comparison'' then ps\<lparr>comparison := Some page\<rparr>
      else ps)"

definition handlePageAssembled ::
  "string \<Rightarrow> string \<Rightarrow> Json \<Rightarrow> nat \<Rightarrow> OrchestratorAgent \<Rightarrow> error + OrchestratorAgent" where
  "handlePageAssembled src pageType page now a =
     (let a1 = a\<lparr>pipelineState := (pipelineState a)
                  \<lparr>pages := store_page pageType page (pages (pipelineState a))\<rparr>\<rparr>;
          a2 = a1\<lparr>pipelineState := (pipelineState a1)
                  \<lparr>receivedPages := set_add pageType (receivedPages (pipelineState a1))\<rparr>\<rparr>;
          a3 = logEvent ''page-assembled'' src log_completed (Some (pageType @ '' page assembled''))
                 now a2
      in checkPipelineCompletion now a3)"

definition handleAgentError :: "string \<Rightarrow> string \<Rightarrow> nat \<Rightarrow> OrchestratorAgent \<Rightarrow> OrchestratorAgent" where
  "handleAgentError agentId err now a =
     (let a1 = logEvent ''agent-error'' agentId log_failed (Some err) now a
      in if p_status (pipelineState a1) = running then
           (let a2 = a1\<lparr>pipelineState := (pipelineState a1)\<lparr>p_status := failed\<rparr>\<rparr>
            in if rejectCompletion a2
               then a2\<lparr>settled := settled a2 @ [Rejected (''Pipeline failed: '' @ err)]\<rparr>
               else a2)
         else a1)"

definition handleProductModelReady ::
  "string \<Rightarrow> Json \<Rightarrow> string \<Rightarrow> nat \<Rightarrow> OrchestratorAgent \<Rightarrow> OrchestratorAgent" where
  "handleProductModelReady src pm pname now a =
     logEvent ''product-model-ready'' src log_completed (Some (''Product normalized: '' @ pname))
       now (a\<lparr>pipelineState := (pipelineState a)\<lparr>product := Some pm\<rparr>\<rparr>)"

definition handleQuestionsGenerated ::
  "string \<Rightarrow> Json \<Rightarrow> nat \<Rightarrow> nat \<Rightarrow> OrchestratorAgent \<Rightarrow> OrchestratorAgent" where
  "handleQuestionsGenerated src qs totalCount now a =
     logEvent ''questions-generated'' src log_completed
       (Some (''Generated '' @ string_of_nat totalCount @ '' questions''))
       now (a\<lparr>pipelineState := (pipelineState a)\<lparr>questionSet := Some qs\<rparr>\<rparr>)"

definition handleContentBlocksReady ::
  "string \<Rightarrow> Json \<Rightarrow> nat \<Rightarrow> OrchestratorAgent \<Rightarrow> OrchestratorAgent" where
  "handleContentBlocksReady src blocks now a =
     logEvent ''content-blocks-ready'' src log_completed (Some ''Content blocks generated'')
       now (a\<lparr>pipelineState := (pipelineState a)\<lparr>contentBlocks := Some blocks\<rparr>\<rparr>)"

fun onMessage :: "Incoming \<Rightarrow> nat \<Rightarrow> OrchestratorAgent \<Rightarrow> error + OrchestratorAgent" where
  "onMessage (ProductModelReady src pm pname) now a =
     Inr (handleProductModelReady src pm pname now a)"
| "onMessage (QuestionsGenerated src qs n) now a = Inr (handleQuestionsGenerated src qs n now a)"
| "onMessage (ContentBlocksReady src blocks) now a = Inr (handleContentBlocksReady src blocks now a)"
| "onMessage (PageAssembled src pageType page) now a = handlePageAssembled src pageType page now a"
| "onMessage (AgentError agentId err) now a = Inr (handleAgentError agentId err now a)"
| "onMessage (OtherMessage ty) now a = Inr a"

text \<open>The messages the agent observes one after another, each with the clock's reading; a
  handler that throws ends the series with its error.\<close>

fun observe :: "(Incoming \<times> nat) list \<Rightarrow> OrchestratorAgent \<Rightarrow> error + OrchestratorAgent" where
  "observe [] a = Inr a"
| "observe ((m, now) # rest) a =
     (case onMessage m now a of Inl e \<Rightarrow> Inl e | Inr a' \<Rightarrow> observe rest a')"

text \<open>What a caller sees of a series of observed messages: the run's status and the calls
  to the promise's callbacks; \<open>None\<close> when a handler threw.\<close>

definition status_of :: "error + OrchestratorAgent \<Rightarrow> PipelineStatus option" where
  "status_of r = (case r of Inl e \<Rightarrow> None | Inr a \<Rightarrow> Some (p_status (pipelineState a)))"

definition settled_of :: "error + OrchestratorAgent \<Rightarrow> Settlement list option" where
  "settled_of r = (case r of Inl e \<Rightarrow> None | Inr a \<Rightarrow> Some (settled a))"

text \<open>What the caller of \<open>runPipeline\<close> finds in the values its promise was resolved
  with, read in the agent's state: the names in the summary and the pages.\<close>

fun resolved_with :: "OrchestratorAgent \<Rightarrow> Settlement \<Rightarrow> (string list \<times> Pages) option" where
  "resolved_with a (Resolved summ) =
     Some (pagesGenerated (out_summary (read_output a summ)), out_pages (read_output a summ))"
| "resolved_with a (Rejected e) = None"

definition delivered_of :: "error + OrchestratorAgent \<Rightarrow> (string list \<times> Pages) option list option" where
  "delivered_of r = (case r of Inl e \<Rightarrow> None | Inr a \<Rightarrow> Some (map (resolved_with a) (settled a)))"

fun is_page_assembled :: "Incoming \<Rightarrow> bool" where
  "is_page_assembled (PageAssembled src pageType page) = True"
| "is_page_assembled other = False"

fun is_agent_error :: "Incoming \<Rightarrow> bool" where
  "is_agent_error (AgentError agentId err) = True"
| "is_agent_error other = False"

text \<open>The output names of the output-produced messages in a series of messages.\<close>

fun observed_pages :: "(Incoming \<times> nat) list \<Rightarrow> string list" where
  "observed_pages [] = []"
| "observed_pages ((PageAssembled src pageType page, now) # rest) = pageType # observed_pages rest"
| "observed_pages (other # rest) = observed_pages rest"

text \<open>The outputs collected from a series of messages, in the claim's words: for a name,
  the page of the last output-produced message with that name.\<close>

fun last_page :: "string \<Rightarrow> (Incoming \<times> nat) list \<Rightarrow> Json option" where
  "last_page name [] = None"
| "last_page name ((PageAssembled src pageType page, now) # rest) =
     (case last_page name rest of
        Some later \<Rightarrow> Some later
      | None \<Rightarrow> if pageType = name then Some page else None)"
| "last_page name (other # rest) = last_page name rest"

text \<open>What holds of the agent from \<open>runPipeline(rawData, pagesToGenerate)\<close> on: both
  callbacks and the start time are set, the expected set is the one recorded, a running run
  has called no callback yet, and a run that ended has called at most one.\<close>

definition run_of :: "string list \<Rightarrow> OrchestratorAgent \<Rightarrow> bool" where
  "run_of pagesToGenerate a \<longleftrightarrow>
     resolveCompletion a \<and> rejectCompletion a \<and>
     p_startedAt (pipelineState a) \<noteq> None \<and>
     expectedPages (pipelineState a) = fold set_add pagesToGenerate [] \<and>
     (if p_status (pipelineState a) = running then settled a = [] else length (settled a) \<le> 1)"

text \<open>The registries the methods can build, starting from the constructor's.\<close>

inductive registry_reachable :: "AgentRegistry \<Rightarrow> bool" where
  reach_new: "registry_reachable new_AgentRegistry"
| reach_register:
    "registry_reachable r \<Longrightarrow>
     registry_reachable (snd (registry_register ident ty caps metadata now r))"
| reach_unregister: "registry_reachable r \<Longrightarrow> registry_reachable (snd (unregister ident r))"
| reach_updateStatus:
    "registry_reachable r \<Longrightarrow> registry_reachable (registry_updateStatus ident st now r)"
| reach_heartbeat: "registry_reachable r \<Longrightarrow> registry_reachable (heartbeat ident now r)"

section \<open>Example states\<close>

definition cap_render :: AgentCapability where
  "cap_render =
     \<lparr>cap_name = ''render'', cap_description = ''renders a page'', inputTypes = [],
      outputTypes = []\<rparr>"

definition cap_archive :: AgentCapability where
  "cap_archive =
     \<lparr>cap_name = ''archive'', cap_description = ''archives a page'', inputTypes = [],
      outputTypes = []\<rparr>"

definition registry_w1 :: AgentRegistry where
  "registry_w1 = snd (registry_register ''w1'' ''Worker'' [cap_render] [] 0 new_AgentRegistry)"

definition run_ab :: OrchestratorAgent where
  "run_ab = runPipeline ''raw'' [''a'', ''b''] 0 (new_OrchestratorAgent ''orchestrator-agent'')"

definition run_faq_product :: OrchestratorAgent where
  "run_faq_product =
     runPipeline ''raw'' [''faq'', ''product''] 0 (new_OrchestratorAgent ''orchestrator-agent'')"

definition sys_retry2 :: System where
  "sys_retry2 = snd (submit ''render-page'' ''render'' ''{}''
      (default_options\<lparr>sub_maxRetries := Some 2\<rparr>) 10 new_System)"

definition sys_w1 :: System where
  "sys_w1 = updateStatus ''w1'' READY 2 (snd (register ''w1'' ''Worker'' [cap_render] [] 1 new_System))"

definition sys_assigned :: System where
  "sys_assigned =
     processQueue 11 (snd (submit ''render-page'' ''render'' ''{}'' default_options 10 sys_w1))"

definition sys_assigned_once :: System where
  "sys_assigned_once =
     processQueue 11 (snd (submit ''render-page'' ''render'' ''{}''
       (default_options\<lparr>sub_maxRetries := Some 1\<rparr>) 10 sys_w1))"

definition sys_three_workers :: System where
  "sys_three_workers =
     updateStatus ''w3'' READY 6 (snd (register ''w3'' ''Worker'' [cap_render] [] 5
       (updateStatus ''w2'' READY 4 (snd (register ''w2'' ''Worker'' [cap_render] [] 3
         sys_w1)))))"

definition sys_two_tasks :: System where
  "sys_two_tasks =
     snd (submit ''render-page'' ''render'' ''b'' (default_options\<lparr>sub_priority := Some HIGH\<rparr>) 20
       (snd (submit ''render-page'' ''render'' ''a'' (default_options\<lparr>sub_priority := Some LOW\<rparr>) 10
         sys_three_workers)))"

definition sys_three_tasks :: System where
  "sys_three_tasks =
     snd (submit ''render-page'' ''render'' ''c'' (default_options\<lparr>sub_priority := Some NORMAL\<rparr>) 30
       sys_two_tasks)"

definition sys_dep_done :: System where
  "sys_dep_done =
     completeTask (10, 1) ''done'' 12
       (processQueue 11 (snd (submit ''load'' ''render'' ''d'' default_options 10 sys_w1)))"

definition sys_dependent :: System where
  "sys_dependent =
     snd (submit ''render-page'' ''render'' ''b''
       (default_options\<lparr>sub_priority := Some LOW, sub_dependencies := Some [(10, 1)]\<rparr>) 30
       sys_dep_done)"

definition sys_contended :: System where
  "sys_contended =
     snd (submit ''render-page'' ''render'' ''b''
       (default_options\<lparr>sub_priority := Some LOW, sub_dependencies := Some [(10, 1)]\<rparr>) 30
       (snd (submit ''render-page'' ''render'' ''a''
         (default_options\<lparr>sub_priority := Some HIGH, sub_dependencies := Some [(10, 1)]\<rparr>) 20
         sys_dep_done)))"

definition sys_stale :: System where
  "sys_stale =
     snd (submit ''render-page'' ''render'' ''a'' default_options 10
       (updateStatus ''w2'' READY 6 (snd (register ''w2'' ''Worker'' [cap_render] [] 5
         (updateStatus ''w1'' READY 4 (snd (register ''w1'' ''Worker'' [cap_archive] [] 3
           sys_w1)))))))"

definition sys_blocked :: System where
  "sys_blocked =
     snd (submit ''render-page'' ''render'' ''b''
       (default_options\<lparr>sub_dependencies := Some [(10, 1)]\<rparr>) 30
       (snd (submit ''load'' ''archive'' ''d'' default_options 10 sys_w1)))"

section \<open>Properties of the registry\<close>

lemma set_delete_absent: "x \<notin> set (set_delete x xs)"
  by (simp add: set_delete_def)

lemma set_delete_twice: "set_delete x (set_delete x xs) = set_delete x xs"
  by (simp add: set_delete_def)

lemma fold_unindex_capability:
  "fold (unindex_capability ident) caps idx c =
     (if c \<in> cap_name ` set caps then map_option (set_delete ident) (idx c) else idx c)"
proof (induction caps arbitrary: idx)
  case Nil
  then show ?case by simp
next
  case (Cons capability caps)
  show ?case
  proof (cases "idx (cap_name capability)")
    case None
    then have step: "unindex_capability ident capability idx = idx"
      by (simp add: unindex_capability_def)
    from None show ?thesis
      by (auto simp: step Cons.IH)
  next
    case (Some agentSet)
    then have step: "unindex_capability ident capability idx =
        idx(cap_name capability \<mapsto> set_delete ident agentSet)"
      by (simp add: unindex_capability_def)
    from Some show ?thesis
      by (auto simp: step Cons.IH set_delete_twice)
  qed
qed

lemma registry_keyed_new: "registry_keyed new_AgentRegistry"
  by (simp add: registry_keyed_def new_AgentRegistry_def)

lemma registry_keyed_register:
  "registry_keyed r \<Longrightarrow> registry_keyed (snd (registry_register ident ty caps metadata now r))"
  by (simp add: registry_keyed_def registry_register_def new_record_def Let_def)

lemma registry_keyed_unregister: "registry_keyed r \<Longrightarrow> registry_keyed (snd (unregister ident r))"
  by (auto simp: registry_keyed_def unregister_def split: option.splits)

lemma registry_keyed_updateStatus:
  "registry_keyed r \<Longrightarrow> registry_keyed (registry_updateStatus ident st now r)"
  by (auto simp: registry_keyed_def registry_updateStatus_def split: option.splits)

lemma registry_keyed_heartbeat: "registry_keyed r \<Longrightarrow> registry_keyed (heartbeat ident now r)"
  by (auto simp: registry_keyed_def heartbeat_def split: option.splits)

lemma reachable_keyed: "registry_reachable r \<Longrightarrow> registry_keyed r"
  by (induction rule: registry_reachable.induct)
     (simp_all add: registry_keyed_new registry_keyed_register registry_keyed_unregister
        registry_keyed_updateStatus registry_keyed_heartbeat)

lemma in_map_filter: "y \<in> set (List.map_filter f xs) \<longleftrightarrow> (\<exists>x \<in> set xs. f x = Some y)"
  by (induction xs) (auto split: option.splits)

lemma findByCapability_keys:
  assumes "registry_keyed r" and "rec \<in> set (findByCapability cname r)"
  shows "agents r (agent_id rec) = Some rec"
proof (cases "capabilityIndex r cname")
  case None
  with assms(2) show ?thesis
    by (simp add: findByCapability_def)
next
  case (Some ids)
  with assms(2) obtain k where k: "agents r k = Some rec"
    by (auto simp: findByCapability_def in_map_filter)
  with assms(1) have "agent_id rec = k"
    by (simp add: registry_keyed_def)
  with k show ?thesis by simp
qed

lemma agents_unregister: "agents (snd (unregister ident r)) = (agents r)(ident := None)"
  by (auto simp: unregister_def split: option.splits)

text \<open>The index after the loop of \<open>register\<close>, and what keeps the index in agreement with
  the records.\<close>

lemma fold_index_capability:
  "fold (index_capability ident) caps idx c =
     (if c \<in> cap_name ` set caps
      then Some (set_add ident (case idx c of None \<Rightarrow> [] | Some ids \<Rightarrow> ids))
      else idx c)"
proof (induction caps arbitrary: idx)
  case Nil
  show ?case by simp
next
  case (Cons cap caps)
  have twice: "set_add ident (set_add ident xs) = set_add ident xs" for xs
    by (simp add: set_add_def)
  show ?case
    by (simp add: Cons.IH) (simp add: index_capability_def twice)
qed

lemma advertises_iff: "advertises c rec \<longleftrightarrow> c \<in> cap_name ` set (capabilities rec)"
  by (auto simp: advertises_def list_ex_iff)

lemma index_soundD:
  assumes "index_sound r" and "capabilityIndex r c = Some ids" and "i \<in> set ids"
  shows "\<exists>rec. agents r i = Some rec \<and> advertises c rec"
  using assms unfolding index_sound_def by blast

lemma index_soundI:
  assumes "\<And>c ids i. capabilityIndex r c = Some ids \<Longrightarrow> i \<in> set ids \<Longrightarrow>
      \<exists>rec. agents r i = Some rec \<and> advertises c rec"
  shows "index_sound r"
  using assms unfolding index_sound_def by blast

lemma index_sound_new: "index_sound new_AgentRegistry"
  by (simp add: index_sound_def new_AgentRegistry_def)

lemma index_sound_register:
  assumes "index_sound r"
    and "\<And>rec c. agents r ident = Some rec \<Longrightarrow> advertises c rec \<Longrightarrow> c \<in> cap_name ` set caps"
  shows "index_sound (snd (registry_register ident ty caps metadata now r))"
proof (rule index_soundI)
  fix c ids i
  let ?r = "snd (registry_register ident ty caps metadata now r)"
  assume entry: "capabilityIndex ?r c = Some ids" and listed: "i \<in> set ids"
  have agents': "agents ?r = (agents r)(ident \<mapsto> new_record ident ty caps metadata now)"
    by (simp add: registry_register_def Let_def)
  have index': "capabilityIndex ?r c =
      (if c \<in> cap_name ` set caps
       then Some (set_add ident (case capabilityIndex r c of None \<Rightarrow> [] | Some ids \<Rightarrow> ids))
       else capabilityIndex r c)"
    by (simp add: registry_register_def Let_def fold_index_capability)
  have new: "advertises c (new_record ident ty caps metadata now) \<longleftrightarrow> c \<in> cap_name ` set caps"
    by (simp add: advertises_iff new_record_def)
  show "\<exists>rec. agents ?r i = Some rec \<and> advertises c rec"
  proof (cases "i = ident")
    case True
    show ?thesis
    proof (cases "c \<in> cap_name ` set caps")
      case True
      with \<open>i = ident\<close> agents' new show ?thesis by simp
    next
      case False
      with entry index' have old: "capabilityIndex r c = Some ids" by simp
      from index_soundD [OF assms(1) old listed] \<open>i = ident\<close>
      obtain rec where "agents r ident = Some rec" and "advertises c rec" by auto
      from assms(2) [OF this] False show ?thesis by simp
    qed
  next
    case False
    have "\<exists>old. capabilityIndex r c = Some old \<and> i \<in> set old"
    proof (cases "c \<in> cap_name ` set caps")
      case True
      with entry index' listed False show ?thesis
        by (cases "capabilityIndex r c") (auto simp: set_add_def split: if_splits)
    next
      case False
      with entry index' listed show ?thesis by simp
    qed
    then obtain old where "capabilityIndex r c = Some old" and "i \<in> set old" by blast
    from index_soundD [OF assms(1) this] False agents' show ?thesis by simp
  qed
qed

lemma index_sound_unregister:
  assumes "index_sound r"
  shows "index_sound (snd (unregister ident r))"
proof (cases "agents r ident")
  case None
  with assms show ?thesis by (simp add: unregister_def)
next
  case (Some rec)
  let ?r = "snd (unregister ident r)"
  have index': "capabilityIndex ?r c =
      (if c \<in> cap_name ` set (capabilities rec)
       then map_option (set_delete ident) (capabilityIndex r c) else capabilityIndex r c)" for c
    using Some by (simp add: unregister_def fold_unindex_capability)
  show ?thesis
  proof (rule index_soundI)
    fix c ids i
    assume entry: "capabilityIndex ?r c = Some ids" and listed: "i \<in> set ids"
    have "\<exists>old. capabilityIndex r c = Some old \<and> i \<in> set old \<and> i \<noteq> ident"
    proof (cases "c \<in> cap_name ` set (capabilities rec)")
      case True
      with entry index' [of c] listed show ?thesis
        by (cases "capabilityIndex r c") (auto simp: set_delete_def)
    next
      case False
      with entry index' [of c] have old: "capabilityIndex r c = Some ids" by simp
      from index_soundD [OF assms old listed] Some False have "i \<noteq> ident"
        by (auto simp: advertises_iff)
      with old listed show ?thesis by simp
    qed
    then obtain old where old: "capabilityIndex r c = Some old" "i \<in> set old" and "i \<noteq> ident"
      by blast
    from index_soundD [OF assms old] \<open>i \<noteq> ident\<close>
    show "\<exists>rec. agents ?r i = Some rec \<and> advertises c rec"
      by (simp add: agents_unregister)
  qed
qed

lemma index_sound_updateStatus:
  assumes "index_sound r"
  shows "index_sound (registry_updateStatus ident st now r)"
proof (rule index_soundI)
  fix c ids i
  assume "capabilityIndex (registry_updateStatus ident st now r) c = Some ids" and "i \<in> set ids"
  then have "capabilityIndex r c = Some ids" and "i \<in> set ids"
    by (simp_all add: registry_updateStatus_def split: option.splits)
  from index_soundD [OF assms this]
  show "\<exists>rec. agents (registry_updateStatus ident st now r) i = Some rec \<and> advertises c rec"
    by (auto simp: registry_updateStatus_def advertises_def split: option.splits)
qed

lemma index_sound_heartbeat:
  assumes "index_sound r"
  shows "index_sound (heartbeat ident now r)"
proof (rule index_soundI)
  fix c ids i
  assume "capabilityIndex (heartbeat ident now r) c = Some ids" and "i \<in> set ids"
  then have "capabilityIndex r c = Some ids" and "i \<in> set ids"
    by (simp_all add: heartbeat_def split: option.splits)
  from index_soundD [OF assms this]
  show "\<exists>rec. agents (heartbeat ident now r) i = Some rec \<and> advertises c rec"
    by (auto simp: heartbeat_def advertises_def split: option.splits)
qed

text \<open>The first record that \<open>findReadyByCapability\<close> returns is a stored \<open>READY\<close> record
  whose id the index lists under the name; it advertises the name when the index agrees
  with the records.\<close>

lemma findReady_head:
  assumes "registry_keyed r" and "findReadyByCapability c r = w # ws"
  shows "agent_status w = READY" and "agents r (agent_id w) = Some w"
    and "\<exists>ids. capabilityIndex r c = Some ids \<and> agent_id w \<in> set ids"
    and "index_sound r \<Longrightarrow> advertises c w"
proof -
  from assms(2) have "w \<in> set (filter (\<lambda>a. agent_status a = READY) (findByCapability c r))"
    by (simp add: findReadyByCapability_def)
  then have ready: "agent_status w = READY" and found: "w \<in> set (findByCapability c r)"
    by simp_all
  from ready show "agent_status w = READY" .
  from found obtain ids k where entry: "capabilityIndex r c = Some ids" and k: "k \<in> set ids"
    and stored: "agents r k = Some w"
    by (cases "capabilityIndex r c") (auto simp: findByCapability_def in_map_filter)
  from assms(1) stored have key: "agent_id w = k"
    by (simp add: registry_keyed_def)
  with stored show "agents r (agent_id w) = Some w" by simp
  from entry k key show listed: "\<exists>ids. capabilityIndex r c = Some ids \<and> agent_id w \<in> set ids"
    by simp
  show "advertises c w" if "index_sound r"
    using index_soundD [OF that entry k] stored by simp
qed

lemma findReady_updateStatus_busy:
  assumes "findReadyByCapability c r = []"
  shows "findReadyByCapability c (registry_updateStatus a BUSY now r) = []"
proof (cases "agents r a")
  case None
  with assms show ?thesis by (simp add: registry_updateStatus_def)
next
  case (Some rec)
  show ?thesis
  proof (cases "capabilityIndex r c")
    case None
    with Some show ?thesis
      by (simp add: findReadyByCapability_def findByCapability_def registry_updateStatus_def)
  next
    case (Some ids)
    from assms Some have none: "\<forall>k \<in> set ids. \<forall>x. agents r k = Some x \<longrightarrow> agent_status x \<noteq> READY"
      by (auto simp: findReadyByCapability_def findByCapability_def filter_empty_conv
          in_map_filter)
    have "\<forall>x \<in> set (List.map_filter
        ((agents r)(a \<mapsto> rec\<lparr>agent_status := BUSY, lastHeartbeat := now\<rparr>)) ids).
        agent_status x \<noteq> READY"
      using none by (auto simp: in_map_filter split: if_splits)
    with Some \<open>agents r a = Some rec\<close> show ?thesis
      by (simp add: findReadyByCapability_def findByCapability_def registry_updateStatus_def
          filter_empty_conv)
  qed
qed

text \<open>
  Claim C9. For every registered worker id, after \<open>unregister(id)\<close> the result of
  \<open>findByCapability(name)\<close> holds no record with that id, for every capability name of
  the worker's record, and the index entry of that name no longer holds the id. The registry
  is any state the registry's methods can build.
\<close>

theorem unregister_findByCapability:
  assumes "registry_reachable r" and "agents r ident = Some rec"
    and "cname \<in> cap_name ` set (capabilities rec)"
  shows "ident \<notin> agent_id ` set (findByCapability cname (snd (unregister ident r)))
       \<and> (\<forall>ids. capabilityIndex (snd (unregister ident r)) cname = Some ids \<longrightarrow> ident \<notin> set ids)"
proof
  have keyed: "registry_keyed (snd (unregister ident r))"
    using assms(1) by (simp add: reachable_keyed registry_keyed_unregister)
  show "ident \<notin> agent_id ` set (findByCapability cname (snd (unregister ident r)))"
  proof
    assume "ident \<in> agent_id ` set (findByCapability cname (snd (unregister ident r)))"
    then obtain found where "found \<in> set (findByCapability cname (snd (unregister ident r)))"
        and "agent_id found = ident"
      by auto
    with keyed have "agents (snd (unregister ident r)) ident = Some found"
      using findByCapability_keys by blast
    then show False
      by (simp add: agents_unregister)
  qed
next
  have "capabilityIndex (snd (unregister ident r)) cname =
      map_option (set_delete ident) (capabilityIndex r cname)"
    using assms(2,3) by (simp add: unregister_def fold_unindex_capability)
  then show "\<forall>ids. capabilityIndex (snd (unregister ident r)) cname = Some ids \<longrightarrow> ident \<notin> set ids"
    by (auto simp: set_delete_absent)
qed

theorem unregister_findByCapability_witness:
  "''w1'' \<in> agent_id ` set (findByCapability ''render'' registry_w1) \<and>
   ''w1'' \<notin> agent_id ` set (findByCapability ''render'' (snd (unregister ''w1'' registry_w1))) \<and>
   capabilityIndex (snd (unregister ''w1'' registry_w1)) ''render'' = Some []"
proof -
  have reach: "registry_reachable registry_w1"
    unfolding registry_w1_def by (rule reach_register [OF reach_new])
  have stored: "agents registry_w1 ''w1'' = Some (new_record ''w1'' ''Worker'' [cap_render] [] 0)"
    by (simp add: registry_w1_def registry_register_def Let_def)
  have advertised:
    "''render'' \<in> cap_name ` set (capabilities (new_record ''w1'' ''Worker'' [cap_render] [] 0))"
    by (simp add: new_record_def cap_render_def)
  have idx: "capabilityIndex registry_w1 ''render'' = Some [''w1'']"
    by (simp add: registry_w1_def registry_register_def index_capability_def cap_render_def
        set_add_def new_AgentRegistry_def Let_def)
  have before: "''w1'' \<in> agent_id ` set (findByCapability ''render'' registry_w1)"
    by (simp add: findByCapability_def idx stored new_record_def)
  have after: "capabilityIndex (snd (unregister ''w1'' registry_w1)) ''render'' = Some []"
    by (simp add: unregister_def stored idx new_record_def unindex_capability_def cap_render_def
        set_delete_def)
  from unregister_findByCapability [OF reach stored advertised] before after
  show ?thesis by simp
qed

text \<open>
  Claim C10. \<open>unregister(id)\<close> of an id that is not registered returns \<open>false\<close> and
  returns the registry as it was (agent map and capability index). Of a registered id it
  returns \<open>true\<close>, deletes the record from the agent map, and deletes the id from the index
  entry of each capability of that record; every other index entry stays as it was.
\<close>

theorem unregister_behaviour:
  "(agents r ident = None \<longrightarrow> unregister ident r = (False, r)) \<and>
   (\<forall>rec. agents r ident = Some rec \<longrightarrow>
      fst (unregister ident r) = True \<and>
      agents (snd (unregister ident r)) = (agents r)(ident := None) \<and>
      (\<forall>c. capabilityIndex (snd (unregister ident r)) c =
         (if c \<in> cap_name ` set (capabilities rec)
          then map_option (set_delete ident) (capabilityIndex r c)
          else capabilityIndex r c)) \<and>
      (\<forall>c ids. c \<in> cap_name ` set (capabilities rec) \<longrightarrow>
         capabilityIndex (snd (unregister ident r)) c = Some ids \<longrightarrow> ident \<notin> set ids))"
proof (intro conjI impI allI)
  assume "agents r ident = None"
  then show "unregister ident r = (False, r)"
    by (simp add: unregister_def)
next
  fix rec assume "agents r ident = Some rec"
  then show "fst (unregister ident r) = True"
    by (simp add: unregister_def)
next
  show "agents (snd (unregister ident r)) = (agents r)(ident := None)"
    by (rule agents_unregister)
next
  fix rec c assume "agents r ident = Some rec"
  then show "capabilityIndex (snd (unregister ident r)) c =
         (if c \<in> cap_name ` set (capabilities rec)
          then map_option (set_delete ident) (capabilityIndex r c)
          else capabilityIndex r c)"
    by (simp add: unregister_def fold_unindex_capability)
next
  fix rec c ids
  assume "agents r ident = Some rec" and "c \<in> cap_name ` set (capabilities rec)"
    and "capabilityIndex (snd (unregister ident r)) c = Some ids"
  then show "ident \<notin> set ids"
    by (auto simp: unregister_def fold_unindex_capability set_delete_absent)
qed

theorem unregister_behaviour_witness:
  "unregister ''w2'' registry_w1 = (False, registry_w1) \<and>
   fst (unregister ''w1'' registry_w1) = True \<and>
   agents (snd (unregister ''w1'' registry_w1)) ''w1'' = None \<and>
   capabilityIndex (snd (unregister ''w1'' registry_w1)) ''render'' = Some []"
proof -
  have stored: "agents registry_w1 ''w1'' = Some (new_record ''w1'' ''Worker'' [cap_render] [] 0)"
    by (simp add: registry_w1_def registry_register_def Let_def)
  have absent: "agents registry_w1 ''w2'' = None"
    by (simp add: registry_w1_def registry_register_def new_AgentRegistry_def Let_def)
  have idx: "capabilityIndex registry_w1 ''render'' = Some [''w1'']"
    by (simp add: registry_w1_def registry_register_def index_capability_def cap_render_def
        set_add_def new_AgentRegistry_def Let_def)
  from unregister_behaviour [of registry_w1 "''w2''"] absent
  have one: "unregister ''w2'' registry_w1 = (False, registry_w1)"
    by simp
  from unregister_behaviour [of registry_w1 "''w1''"] stored
  have two: "fst (unregister ''w1'' registry_w1) = True"
    and three: "agents (snd (unregister ''w1'' registry_w1)) = (agents registry_w1)(''w1'' := None)"
    and four: "capabilityIndex (snd (unregister ''w1'' registry_w1)) ''render'' =
      (if ''render'' \<in> cap_name ` set (capabilities (new_record ''w1'' ''Worker'' [cap_render] [] 0))
       then map_option (set_delete ''w1'') (capabilityIndex registry_w1 ''render'')
       else capabilityIndex registry_w1 ''render'')"
    by simp_all
  from four have "capabilityIndex (snd (unregister ''w1'' registry_w1)) ''render'' = Some []"
    by (simp add: idx new_record_def cap_render_def set_delete_def)
  with one two three show ?thesis by simp
qed

section \<open>Properties of the message bus\<close>

lemma listeners_subscribe:
  "listeners (subscribe a ty h b) ty' =
     (if ty' = ty then listeners b ty @ [(a, h)] else listeners b ty')"
  by (simp add: subscribe_def Let_def)

lemma listeners_subscribe_all:
  "listeners (subscribe_all subs b) ty =
     listeners b ty @ map (\<lambda>s. (fst s, snd (snd s))) (filter (\<lambda>s. fst (snd s) = ty) subs)"
proof (induction subs arbitrary: b)
  case Nil
  then show ?case by simp
next
  case (Cons s subs)
  obtain a ty' h where s: "s = (a, ty', h)"
    by (cases s) auto
  show ?case
    by (simp add: s Cons.IH listeners_subscribe)
qed

lemma listeners_unsubscribe: "listeners (unsubscribe a ty b) = listeners b"
  by (simp add: unsubscribe_def split: option.splits)

lemma invoked_publish:
  "invoked (publish src ty pl options now b) =
     map snd (filter (\<lambda>l. \<not> truthy (opt_target options) \<or> opt_target options = Some (fst l))
       (listeners b ty))"
  by (simp add: invoked_def publish_def generateMessageId_def emit_def delivers_def Let_def)

lemma truthy_iff: "\<not> truthy x \<longleftrightarrow> x = None \<or> x = Some []"
  by (cases x) (simp_all add: truthy_def)

lemma invoked_unsubscribe:
  "invoked (publish src ty pl options now (unsubscribe a ty' b)) =
     invoked (publish src ty pl options now b)"
  by (simp add: invoked_publish listeners_unsubscribe)

text \<open>
  Claim C1 (as amended). After any series of \<open>subscribe\<close> calls on a fresh bus, a
  \<open>publish\<close> on a topic calls, in subscription order, exactly the handlers subscribed to
  that topic for which the message has no target, or its target is the empty string, or its
  target equals the subscribing worker id. A publish with a non-empty target calls only the
  handlers subscribed under that id; one with no target calls every handler of the topic.
\<close>

theorem publish_delivery:
  fixes subs :: "(string \<times> MessageType \<times> 'h) list" and pl :: 'p
  shows
  "invoked (publish src ty pl options now (subscribe_all subs new_MessageBus)) =
     map (\<lambda>s. snd (snd s))
       (filter (\<lambda>s. fst (snd s) = ty \<and>
            (opt_target options = None \<or> opt_target options = Some [] \<or>
             opt_target options = Some (fst s))) subs)"
proof -
  have "listeners (subscribe_all subs (new_MessageBus :: ('p, 'h) MessageBus)) ty =
      map (\<lambda>s. (fst s, snd (snd s))) (filter (\<lambda>s. fst (snd s) = ty) subs)"
    by (simp add: listeners_subscribe_all new_MessageBus_def)
  then show ?thesis
    by (simp add: invoked_publish truthy_iff filter_map comp_def conj_commute)
qed

theorem publish_delivery_witness:
  "invoked (publish ''src'' PAGE_ASSEMBLED () (to_target ''b'') 0
      (subscribe_all [(''a'', PAGE_ASSEMBLED, 1::nat), (''b'', PAGE_ASSEMBLED, 2),
          (''b'', TASK_ASSIGNED, 3)] new_MessageBus)) = [2] \<and>
   invoked (publish ''src'' PAGE_ASSEMBLED () no_options 0
      (subscribe_all [(''a'', PAGE_ASSEMBLED, 1::nat), (''b'', PAGE_ASSEMBLED, 2),
          (''b'', TASK_ASSIGNED, 3)] new_MessageBus)) = [1, 2]"
  using publish_delivery [of "''src''" PAGE_ASSEMBLED "()" "to_target ''b''" 0
      "[(''a'', PAGE_ASSEMBLED, 1::nat), (''b'', PAGE_ASSEMBLED, 2), (''b'', TASK_ASSIGNED, 3)]"]
    publish_delivery [of "''src''" PAGE_ASSEMBLED "()" no_options 0
      "[(''a'', PAGE_ASSEMBLED, 1::nat), (''b'', PAGE_ASSEMBLED, 2), (''b'', TASK_ASSIGNED, 3)]"]
  by (simp add: to_target_def no_options_def)

text \<open>
  The claim as first stated leaves the empty string out: \<open>!message.target\<close> holds for
  \<open>target: ''\<close>, so a message whose target is the empty string is delivered to a
  subscriber with another id.
\<close>

theorem empty_target_broadcast:
  "target (fst (publish ''src'' PAGE_ASSEMBLED () (to_target [])  0
      (subscribe ''a'' PAGE_ASSEMBLED (1::nat) new_MessageBus))) = Some [] \<and>
   Some [] \<noteq> Some ''a'' \<and>
   invoked (publish ''src'' PAGE_ASSEMBLED () (to_target []) 0
      (subscribe ''a'' PAGE_ASSEMBLED (1::nat) new_MessageBus)) = [1]"
  by (simp add: invoked_def publish_def generateMessageId_def emit_def delivers_def Let_def
      truthy_def to_target_def subscribe_def new_MessageBus_def)

text \<open>
  Claim C2. After \<open>unsubscribe(workerId, topic)\<close> a publish on the topic should no longer
  call the handler that \<open>workerId\<close> subscribed. \<open>unsubscribe\<close> filters the
  \<open>subscriptions\<close> map only (so \<open>getSubscribers\<close> forgets the worker) and leaves the
  listener that \<open>subscribe\<close> registered on the emitter: on every bus a publish calls the same
  handlers after \<open>unsubscribe\<close> as before it, and the handler of a worker that subscribed and
  unsubscribed is still called.
\<close>

theorem unsubscribe_keeps_listener:
  "invoked (publish src ty pl options now (unsubscribe agentId ty b)) =
     invoked (publish src ty pl options now b) \<and>
   getSubscribers PAGE_ASSEMBLED
      (unsubscribe ''a'' PAGE_ASSEMBLED
        (subscribe ''a'' PAGE_ASSEMBLED (1::nat) (new_MessageBus :: (unit, nat) MessageBus))) = [] \<and>
   invoked (publish ''src'' PAGE_ASSEMBLED () no_options 0
      (unsubscribe ''a'' PAGE_ASSEMBLED (subscribe ''a'' PAGE_ASSEMBLED (1::nat) new_MessageBus))) = [1]"
proof -
  have "getSubscribers PAGE_ASSEMBLED
      (unsubscribe ''a'' PAGE_ASSEMBLED
        (subscribe ''a'' PAGE_ASSEMBLED (1::nat) (new_MessageBus :: (unit, nat) MessageBus))) = []"
    by (simp add: getSubscribers_def unsubscribe_def subscribe_def new_MessageBus_def)
  moreover have "invoked (publish ''src'' PAGE_ASSEMBLED () no_options 0
      (unsubscribe ''a'' PAGE_ASSEMBLED (subscribe ''a'' PAGE_ASSEMBLED (1::nat) new_MessageBus)))
      = [1]"
    by (simp add: invoked_publish listeners_unsubscribe listeners_subscribe no_options_def
        truthy_def new_MessageBus_def)
  ultimately show ?thesis
    by (simp add: invoked_unsubscribe)
qed

section \<open>Properties of the pipeline coordinator\<close>

lemma logEvent_fields [simp]:
  "pipelineState (logEvent ev ag st msg now a) = pipelineState a"
  "settled (logEvent ev ag st msg now a) = settled a"
  "resolveCompletion (logEvent ev ag st msg now a) = resolveCompletion a"
  "rejectCompletion (logEvent ev ag st msg now a) = rejectCompletion a"
  "outbox (logEvent ev ag st msg now a) = outbox a"
  "orch_id (logEvent ev ag st msg now a) = orch_id a"
  by (simp_all add: logEvent_def Let_def)

lemma orch_publish_fields [simp]:
  "pipelineState (orch_publish ty pl a) = pipelineState a"
  "settled (orch_publish ty pl a) = settled a"
  "resolveCompletion (orch_publish ty pl a) = resolveCompletion a"
  "rejectCompletion (orch_publish ty pl a) = rejectCompletion a"
  by (simp_all add: orch_publish_def)

lemma allReceived_iff:
  "allReceived st \<longleftrightarrow> set (expectedPages st) \<subseteq> set (receivedPages st)"
  by (auto simp: allReceived_def list_all_iff)

lemma set_set_add [simp]: "set (set_add x xs) = insert x (set xs)"
  by (auto simp: set_add_def)

lemma set_fold_set_add [simp]: "set (fold set_add xs ys) = set xs \<union> set ys"
  by (induction xs arbitrary: ys) auto

lemma checkPipelineCompletion_waiting:
  assumes "\<not> set (expectedPages (pipelineState a)) \<subseteq> set (receivedPages (pipelineState a))"
  shows "checkPipelineCompletion now a = Inr a"
  using assms by (simp add: checkPipelineCompletion_def allReceived_iff)

lemma checkPipelineCompletion_done:
  assumes "set (expectedPages (pipelineState a)) \<subseteq> set (receivedPages (pipelineState a))"
    and "p_status (pipelineState a) = running" and "p_startedAt (pipelineState a) = Some t0"
    and "resolveCompletion a"
  shows "\<exists>a' summ. checkPipelineCompletion now a = Inr a' \<and>
      pipelineState a' = (pipelineState a)\<lparr>p_status := completed, p_completedAt := Some now\<rparr> \<and>
      settled a' = settled a @ [Resolved summ] \<and>
      pagesGenerated summ = receivedPages (pipelineState a)"
  using assms
  by (simp add: checkPipelineCompletion_def allReceived_iff createOutput_def Let_def)

lemma checkPipelineCompletion_keeps:
  assumes "checkPipelineCompletion now a = Inr a'"
  shows "resolveCompletion a' = resolveCompletion a" "rejectCompletion a' = rejectCompletion a"
    "p_startedAt (pipelineState a') = p_startedAt (pipelineState a)"
    "expectedPages (pipelineState a') = expectedPages (pipelineState a)"
    "receivedPages (pipelineState a') = receivedPages (pipelineState a)"
    "pages (pipelineState a') = pages (pipelineState a)"
  using assms
  by (auto simp: checkPipelineCompletion_def createOutput_def Let_def
      split: if_splits option.splits)

lemma handlePageAssembled_keeps:
  assumes "handlePageAssembled src pageType page now a = Inr a'"
  shows "resolveCompletion a' = resolveCompletion a" "rejectCompletion a' = rejectCompletion a"
    "p_startedAt (pipelineState a') = p_startedAt (pipelineState a)"
    "expectedPages (pipelineState a') = expectedPages (pipelineState a)"
    "receivedPages (pipelineState a') = set_add pageType (receivedPages (pipelineState a))"
    "pages (pipelineState a') = store_page pageType page (pages (pipelineState a))"
  using checkPipelineCompletion_keeps [OF assms [unfolded handlePageAssembled_def Let_def]]
  by simp_all

text \<open>One output-produced message, handled by a running agent whose callbacks and start
  time are set.\<close>

lemma handlePageAssembled_running:
  assumes "p_status (pipelineState a) = running" and "resolveCompletion a"
    and "p_startedAt (pipelineState a) = Some t0"
  shows "\<exists>a' summ. handlePageAssembled src pageType page now a = Inr a' \<and>
     (if set (expectedPages (pipelineState a)) \<subseteq> insert pageType (set (receivedPages (pipelineState a)))
      then p_status (pipelineState a') = completed \<and>
        settled a' = settled a @ [Resolved summ] \<and>
        pagesGenerated summ = receivedPages (pipelineState a')
      else p_status (pipelineState a') = running \<and> settled a' = settled a)"
proof -
  define a3 where "a3 = logEvent ''page-assembled'' src log_completed
      (Some (pageType @ '' page assembled'')) now
      (a\<lparr>pipelineState := (pipelineState a)
          \<lparr>pages := store_page pageType page (pages (pipelineState a)),
           receivedPages := set_add pageType (receivedPages (pipelineState a))\<rparr>\<rparr>)"
  have call: "handlePageAssembled src pageType page now a = checkPipelineCompletion now a3"
    by (simp add: handlePageAssembled_def a3_def Let_def)
  have st: "pipelineState a3 = (pipelineState a)
          \<lparr>pages := store_page pageType page (pages (pipelineState a)),
           receivedPages := set_add pageType (receivedPages (pipelineState a))\<rparr>"
    and keep: "settled a3 = settled a" "resolveCompletion a3"
    using assms(2) by (simp_all add: a3_def)
  show ?thesis
  proof (cases "set (expectedPages (pipelineState a3)) \<subseteq> set (receivedPages (pipelineState a3))")
    case True
    have "p_status (pipelineState a3) = running" "p_startedAt (pipelineState a3) = Some t0"
      using assms(1,3) st by simp_all
    from checkPipelineCompletion_done [OF True this keep(2), of now]
    obtain a' summ where "checkPipelineCompletion now a3 = Inr a'"
      and "pipelineState a' = (pipelineState a3)\<lparr>p_status := completed, p_completedAt := Some now\<rparr>"
      and "settled a' = settled a @ [Resolved summ]"
      and "pagesGenerated summ = receivedPages (pipelineState a3)"
      using keep by auto
    with True st call show ?thesis
      by (intro exI [of _ a'] exI [of _ summ]) simp
  next
    case False
    from checkPipelineCompletion_waiting [OF False]
    have "checkPipelineCompletion now a3 = Inr a3" .
    with False st call keep assms(1) show ?thesis
      by (intro exI [of _ a3]) simp
  qed
qed

lemma handleAgentError_running:
  assumes "p_status (pipelineState a) = running" and "rejectCompletion a"
  shows "p_status (pipelineState (handleAgentError agentId err now a)) = failed"
    and "settled (handleAgentError agentId err now a) =
      settled a @ [Rejected (''Pipeline failed: '' @ err)]"
  using assms by (simp_all add: handleAgentError_def Let_def)

lemma handleAgentError_other:
  assumes "p_status (pipelineState a) \<noteq> running"
  shows "p_status (pipelineState (handleAgentError agentId err now a)) = p_status (pipelineState a)"
    and "settled (handleAgentError agentId err now a) = settled a"
  using assms by (simp_all add: handleAgentError_def Let_def)

lemma handleAgentError_keeps [simp]:
  "resolveCompletion (handleAgentError agentId err now a) = resolveCompletion a"
  "rejectCompletion (handleAgentError agentId err now a) = rejectCompletion a"
  "p_startedAt (pipelineState (handleAgentError agentId err now a)) = p_startedAt (pipelineState a)"
  "expectedPages (pipelineState (handleAgentError agentId err now a)) = expectedPages (pipelineState a)"
  "receivedPages (pipelineState (handleAgentError agentId err now a)) = receivedPages (pipelineState a)"
  "pages (pipelineState (handleAgentError agentId err now a)) = pages (pipelineState a)"
  by (simp_all add: handleAgentError_def Let_def)

lemma handlePageAssembled_other:
  assumes "p_status (pipelineState a) \<noteq> running"
  shows "\<exists>a'. handlePageAssembled src pageType page now a = Inr a' \<and>
     p_status (pipelineState a') = p_status (pipelineState a) \<and> settled a' = settled a"
  using assms by (simp add: handlePageAssembled_def Let_def checkPipelineCompletion_def)

lemma onMessage_terminal:
  assumes "p_status (pipelineState a) \<noteq> running"
  shows "\<exists>a'. onMessage m now a = Inr a' \<and>
     p_status (pipelineState a') = p_status (pipelineState a) \<and> settled a' = settled a"
proof (cases m)
  case (PageAssembled src pageType page)
  with handlePageAssembled_other [OF assms] show ?thesis by simp
next
  case (AgentError agentId err)
  with handleAgentError_other [OF assms] show ?thesis by simp
qed (simp_all add: handleProductModelReady_def handleQuestionsGenerated_def
      handleContentBlocksReady_def)

lemma observe_terminal:
  assumes "p_status (pipelineState a) \<noteq> running"
  shows "\<exists>a'. observe events a = Inr a' \<and>
     p_status (pipelineState a') = p_status (pipelineState a) \<and> settled a' = settled a"
  using assms
proof (induction events arbitrary: a)
  case Nil
  then show ?case by simp
next
  case (Cons e events)
  obtain m now where e: "e = (m, now)" by (cases e)
  from onMessage_terminal [OF Cons.prems, of m now]
  obtain a1 where step: "onMessage m now a = Inr a1"
    and same: "p_status (pipelineState a1) = p_status (pipelineState a)" "settled a1 = settled a"
    by blast
  from Cons.prems same have "p_status (pipelineState a1) \<noteq> running" by simp
  from Cons.IH [OF this] step same e show ?case by simp
qed

lemma onMessage_keeps:
  assumes "onMessage m now a = Inr a'"
  shows "resolveCompletion a' = resolveCompletion a" "rejectCompletion a' = rejectCompletion a"
    "p_startedAt (pipelineState a') = p_startedAt (pipelineState a)"
    "expectedPages (pipelineState a') = expectedPages (pipelineState a)"
    "set (receivedPages (pipelineState a')) =
       set (receivedPages (pipelineState a)) \<union> set (observed_pages [(m, now)])"
  using assms
  by (cases m;
      auto simp: handleProductModelReady_def handleQuestionsGenerated_def
        handleContentBlocksReady_def dest: handlePageAssembled_keeps)+

text \<open>The names received and the pages kept after one message and after a series of
  messages, whatever the run's status.\<close>

lemma onMessage_received:
  assumes "onMessage m now a = Inr a'"
  shows "receivedPages (pipelineState a') =
     fold set_add (observed_pages [(m, now)]) (receivedPages (pipelineState a))"
  using assms
  by (cases m)
     (auto simp: handleProductModelReady_def handleQuestionsGenerated_def
        handleContentBlocksReady_def dest: handlePageAssembled_keeps(5))

lemma onMessage_pages:
  assumes "onMessage m now a = Inr a'"
  shows "faq (pages (pipelineState a')) =
      (case last_page ''faq'' [(m, now)] of
         None \<Rightarrow> faq (pages (pipelineState a)) | Some p \<Rightarrow> Some p)"
    and "product_page (pages (pipelineState a')) =
      (case last_page ''product'' [(m, now)] of
         None \<Rightarrow> product_page (pages (pipelineState a)) | Some p \<Rightarrow> Some p)"
    and "comparison (pages (pipelineState a')) =
      (case last_page ''comparison'' [(m, now)] of
         None \<Rightarrow> comparison (pages (pipelineState a)) | Some p \<Rightarrow> Some p)"
  using assms
  by (cases m;
      auto simp: handleProductModelReady_def handleQuestionsGenerated_def
        handleContentBlocksReady_def store_page_def dest!: handlePageAssembled_keeps(6))+

lemma last_page_Cons:
  "last_page name (e # rest) =
     (case last_page name rest of Some p \<Rightarrow> Some p | None \<Rightarrow> last_page name [e])"
proof -
  obtain m now where "e = (m, now)" by (cases e)
  then show ?thesis
    by (cases m) (simp_all split: option.splits)
qed

lemma observed_pages_Cons:
  "observed_pages (e # rest) = observed_pages [e] @ observed_pages rest"
proof -
  obtain m now where "e = (m, now)" by (cases e)
  then show ?thesis
    by (cases m) simp_all
qed

lemma observe_received:
  assumes "observe events a = Inr a'"
  shows "receivedPages (pipelineState a') =
     fold set_add (observed_pages events) (receivedPages (pipelineState a))"
  using assms
proof (induction events arbitrary: a)
  case Nil
  then show ?case by simp
next
  case (Cons e events)
  obtain m now where e: "e = (m, now)" by (cases e)
  with Cons.prems obtain a1 where step: "onMessage m now a = Inr a1"
    and rest: "observe events a1 = Inr a'"
    by (cases "onMessage m now a") simp_all
  from Cons.IH [OF rest] onMessage_received [OF step]
  show ?case
    using observed_pages_Cons [of e events] by (simp add: e)
qed

lemma observe_field:
  assumes "\<And>m now a a1. onMessage m now a = Inr a1 \<Longrightarrow>
      f a1 = (case last_page name [(m, now)] of None \<Rightarrow> f a | Some p \<Rightarrow> Some p)"
    and "observe events a = Inr a'"
  shows "f a' = (case last_page name events of None \<Rightarrow> f a | Some p \<Rightarrow> Some p)"
  using assms(2)
proof (induction events arbitrary: a)
  case Nil
  then show ?case by simp
next
  case (Cons e events)
  obtain m now where e: "e = (m, now)" by (cases e)
  with Cons.prems obtain a1 where step: "onMessage m now a = Inr a1"
    and rest: "observe events a1 = Inr a'"
    by (cases "onMessage m now a") simp_all
  have "last_page name (e # events) =
      (case last_page name events of Some p \<Rightarrow> Some p | None \<Rightarrow> last_page name [(m, now)])"
    unfolding e by (rule last_page_Cons)
  with Cons.IH [OF rest] assms(1) [OF step] show ?case
    by (simp split: option.splits)
qed

lemma observe_pages:
  assumes "observe events a = Inr a'"
  shows "faq (pages (pipelineState a')) =
      (case last_page ''faq'' events of
         None \<Rightarrow> faq (pages (pipelineState a)) | Some p \<Rightarrow> Some p)"
    and "product_page (pages (pipelineState a')) =
      (case last_page ''product'' events of
         None \<Rightarrow> product_page (pages (pipelineState a)) | Some p \<Rightarrow> Some p)"
    and "comparison (pages (pipelineState a')) =
      (case last_page ''comparison'' events of
         None \<Rightarrow> comparison (pages (pipelineState a)) | Some p \<Rightarrow> Some p)"
  by (rule observe_field [OF _ assms], erule onMessage_pages)+

lemma observe_append:
  "observe (xs @ ys) a = (case observe xs a of Inl e \<Rightarrow> Inl e | Inr a' \<Rightarrow> observe ys a')"
proof (induction xs arbitrary: a)
  case Nil
  show ?case by simp
next
  case (Cons x xs)
  obtain m now where "x = (m, now)" by (cases x)
  with Cons.IH show ?case
    by (cases "onMessage m now a") simp_all
qed

lemma runPipeline_pages [simp]:
  "pages (pipelineState (runPipeline raw pagesToGenerate now a)) =
     \<lparr>faq = None, product_page = None, comparison = None\<rparr>"
  by (simp add: runPipeline_def Let_def createInitialState_def)

text \<open>The pages of a run are the last pages received under the three names since
  \<open>runPipeline\<close>, also for messages handled after the run has ended: a reader of the
  resolved output finds those as well.\<close>

lemma run_pages:
  assumes "observe events (runPipeline raw pagesToGenerate now0 a0) = Inr a"
  shows "out_pages (read_output a summ) =
     \<lparr>faq = last_page ''faq'' events, product_page = last_page ''product'' events,
      comparison = last_page ''comparison'' events\<rparr>"
  using observe_pages [OF assms]
  by (cases "pages (pipelineState a)") (simp add: read_output_def split: option.splits)

lemma run_of_runPipeline: "run_of pagesToGenerate (runPipeline raw pagesToGenerate now a)"
  by (simp add: run_of_def runPipeline_def Let_def createInitialState_def)

lemma runPipeline_received [simp]:
  "receivedPages (pipelineState (runPipeline raw pagesToGenerate now a)) = []"
  by (simp add: runPipeline_def Let_def createInitialState_def)

lemma runPipeline_running [simp]:
  "p_status (pipelineState (runPipeline raw pagesToGenerate now a)) = running"
  "settled (runPipeline raw pagesToGenerate now a) = []"
  by (simp_all add: runPipeline_def Let_def createInitialState_def)

lemma run_of_onMessage:
  assumes "run_of pagesToGenerate a"
  shows "\<exists>a'. onMessage m now a = Inr a' \<and> run_of pagesToGenerate a'"
proof (cases "p_status (pipelineState a) = running")
  case False
  from onMessage_terminal [OF False, of m now]
  obtain a' where step: "onMessage m now a = Inr a'"
    and same: "p_status (pipelineState a') = p_status (pipelineState a)" "settled a' = settled a"
    by blast
  with assms False onMessage_keeps(1-4) [OF step] show ?thesis
    by (simp add: run_of_def)
next
  case True
  with assms obtain t0 where t0: "p_startedAt (pipelineState a) = Some t0"
    and none: "settled a = []" and cb: "resolveCompletion a" "rejectCompletion a"
    by (auto simp: run_of_def)
  show ?thesis
  proof (cases m)
    case (PageAssembled src pageType page)
    from handlePageAssembled_running [OF True cb(1) t0, of src pageType page now]
    obtain a' summ where step: "handlePageAssembled src pageType page now a = Inr a'"
      and after: "if set (expectedPages (pipelineState a)) \<subseteq>
            insert pageType (set (receivedPages (pipelineState a)))
        then p_status (pipelineState a') = completed \<and>
          settled a' = settled a @ [Resolved summ] \<and>
          pagesGenerated summ = receivedPages (pipelineState a')
        else p_status (pipelineState a') = running \<and> settled a' = settled a"
      by blast
    from after none have "if p_status (pipelineState a') = running then settled a' = []
        else length (settled a') \<le> 1"
      by (auto split: if_splits)
    with handlePageAssembled_keeps(1-4) [OF step] assms step PageAssembled show ?thesis
      by (simp add: run_of_def)
  next
    case (AgentError agentId err)
    with handleAgentError_running [OF True cb(2), of agentId err now] assms none
    show ?thesis
      by (simp add: run_of_def)
  qed (use assms True in \<open>simp_all add: run_of_def handleProductModelReady_def
        handleQuestionsGenerated_def handleContentBlocksReady_def\<close>)
qed

lemma observed_pages_append:
  "set (observed_pages (xs @ ys)) = set (observed_pages xs) \<union> set (observed_pages ys)"
  by (induction xs rule: observed_pages.induct) auto

lemma run_of_observe:
  assumes "run_of pagesToGenerate a"
  shows "\<exists>a'. observe events a = Inr a' \<and> run_of pagesToGenerate a' \<and>
     set (receivedPages (pipelineState a')) =
       set (receivedPages (pipelineState a)) \<union> set (observed_pages events)"
  using assms
proof (induction events arbitrary: a)
  case Nil
  then show ?case by simp
next
  case (Cons e events)
  obtain m now where e: "e = (m, now)" by (cases e)
  from run_of_onMessage [OF Cons.prems, of m now]
  obtain a1 where step: "onMessage m now a = Inr a1" and run: "run_of pagesToGenerate a1"
    by blast
  from Cons.IH [OF run]
  obtain a' where rest: "observe events a1 = Inr a'" and run': "run_of pagesToGenerate a'"
    and rec: "set (receivedPages (pipelineState a')) =
       set (receivedPages (pipelineState a1)) \<union> set (observed_pages events)"
    by blast
  have "set (observed_pages (e # events)) =
      set (observed_pages [(m, now)]) \<union> set (observed_pages events)"
    using observed_pages_append [of "[(m, now)]" events] by (simp add: e)
  with onMessage_keeps(5) [OF step] rec
  have "set (receivedPages (pipelineState a')) =
       set (receivedPages (pipelineState a)) \<union> set (observed_pages (e # events))"
    by auto
  with rest run' step e show ?case by simp
qed

lemma observe_total:
  "\<exists>a'. observe events (runPipeline raw pagesToGenerate now0 a0) = Inr a' \<and>
     run_of pagesToGenerate a'"
  using run_of_observe [OF run_of_runPipeline] by blast

lemma observe_run:
  assumes "observe earlier (runPipeline raw pagesToGenerate now0 a0) = Inr a"
  shows "run_of pagesToGenerate a"
    and "set (receivedPages (pipelineState a)) = set (observed_pages earlier)"
proof -
  from run_of_observe [OF run_of_runPipeline]
  obtain a' where "observe earlier (runPipeline raw pagesToGenerate now0 a0) = Inr a'"
    and "run_of pagesToGenerate a'"
    and "set (receivedPages (pipelineState a')) =
       set (receivedPages (pipelineState (runPipeline raw pagesToGenerate now0 a0))) \<union>
       set (observed_pages earlier)"
    by blast
  with assms show "run_of pagesToGenerate a"
    and "set (receivedPages (pipelineState a)) = set (observed_pages earlier)"
    by simp_all
qed

text \<open>One message handled by a running run: what becomes of the status and of the
  promise.\<close>

lemma onMessage_running:
  assumes "run_of pagesToGenerate a" and "p_status (pipelineState a) = running"
  shows "\<exists>a'. onMessage m now a = Inr a' \<and>
     (p_status (pipelineState a') = completed \<longleftrightarrow>
        is_page_assembled m \<and>
        set pagesToGenerate \<subseteq>
          set (receivedPages (pipelineState a)) \<union> set (observed_pages [(m, now)])) \<and>
     (p_status (pipelineState a') = completed \<longrightarrow>
        (\<exists>summ. settled a' = [Resolved summ] \<and>
           pagesGenerated summ = receivedPages (pipelineState a'))) \<and>
     (p_status (pipelineState a') = failed \<longleftrightarrow> is_agent_error m) \<and>
     (p_status (pipelineState a') = running \<longrightarrow> settled a' = []) \<and>
     p_status (pipelineState a') \<noteq> idle"
proof -
  from assms obtain t0 where t0: "p_startedAt (pipelineState a) = Some t0"
    and none: "settled a = []" and cb: "resolveCompletion a" "rejectCompletion a"
    and expected: "set (expectedPages (pipelineState a)) = set pagesToGenerate"
    by (auto simp: run_of_def)
  show ?thesis
  proof (cases m)
    case (PageAssembled src pageType page)
    from handlePageAssembled_running [OF assms(2) cb(1) t0, of src pageType page now]
    obtain a' summ where step: "handlePageAssembled src pageType page now a = Inr a'"
      and after: "if set (expectedPages (pipelineState a)) \<subseteq>
            insert pageType (set (receivedPages (pipelineState a)))
        then p_status (pipelineState a') = completed \<and>
          settled a' = settled a @ [Resolved summ] \<and>
          pagesGenerated summ = receivedPages (pipelineState a')
        else p_status (pipelineState a') = running \<and> settled a' = settled a"
      by blast
    show ?thesis
    proof (cases "set pagesToGenerate \<subseteq> insert pageType (set (receivedPages (pipelineState a)))")
      case True
      with after expected none step PageAssembled show ?thesis
        by (intro exI [of _ a']) simp
    next
      case False
      with after expected none step PageAssembled show ?thesis
        by (intro exI [of _ a']) simp
    qed
  next
    case (AgentError agentId err)
    with handleAgentError_running [OF assms(2) cb(2), of agentId err now] show ?thesis
      by simp
  qed (use assms(2) none in \<open>simp_all add: handleProductModelReady_def
        handleQuestionsGenerated_def handleContentBlocksReady_def\<close>)
qed

text \<open>A run that has seen no worker error is \<open>completed\<close> exactly when it has handled an
  output-produced message and the names received cover the expected ones.\<close>

lemma error_free_observe:
  assumes "run_of pagesToGenerate a"
    and "set (receivedPages (pipelineState a)) = set obs"
    and "p_status (pipelineState a) = running \<or> p_status (pipelineState a) = completed"
    and "p_status (pipelineState a) = completed \<longleftrightarrow> obs \<noteq> [] \<and> set pagesToGenerate \<subseteq> set obs"
    and "\<not> list_ex is_agent_error (map fst events)"
    and "observe events a = Inr a'"
  shows "p_status (pipelineState a') = completed \<longleftrightarrow>
     obs @ observed_pages events \<noteq> [] \<and> set pagesToGenerate \<subseteq> set (obs @ observed_pages events)"
  using assms
proof (induction events arbitrary: a obs)
  case Nil
  then show ?case by simp
next
  case (Cons e events)
  obtain m now where e: "e = (m, now)" by (cases e)
  with Cons.prems(6) obtain a1 where step: "onMessage m now a = Inr a1"
    and rest: "observe events a1 = Inr a'"
    by (cases "onMessage m now a") simp_all
  from Cons.prems(5) e have no_error: "\<not> is_agent_error m"
    and later: "\<not> list_ex is_agent_error (map fst events)"
    by simp_all
  from run_of_onMessage [OF Cons.prems(1), of m now] step
  have run1: "run_of pagesToGenerate a1" by simp
  have received1: "set (receivedPages (pipelineState a1)) = set (obs @ observed_pages [e])"
    using onMessage_keeps(5) [OF step] Cons.prems(2) by (simp add: e)
  have status1: "(p_status (pipelineState a1) = running \<or> p_status (pipelineState a1) = completed) \<and>
     (p_status (pipelineState a1) = completed \<longleftrightarrow>
        obs @ observed_pages [e] \<noteq> [] \<and> set pagesToGenerate \<subseteq> set (obs @ observed_pages [e]))"
  proof (cases "p_status (pipelineState a) = running")
    case True
    from onMessage_running [OF Cons.prems(1) True, of m now] step
    have iff: "p_status (pipelineState a1) = completed \<longleftrightarrow>
        is_page_assembled m \<and>
        set pagesToGenerate \<subseteq>
          set (receivedPages (pipelineState a)) \<union> set (observed_pages [(m, now)])"
      and other: "p_status (pipelineState a1) \<noteq> failed" "p_status (pipelineState a1) \<noteq> idle"
      using no_error by simp_all
    from other have "p_status (pipelineState a1) = running \<or> p_status (pipelineState a1) = completed"
      by (cases "p_status (pipelineState a1)") simp_all
    moreover have "p_status (pipelineState a1) = completed \<longleftrightarrow>
        obs @ observed_pages [e] \<noteq> [] \<and> set pagesToGenerate \<subseteq> set (obs @ observed_pages [e])"
    proof (cases "is_page_assembled m")
      case True
      then obtain src pageType page where "m = PageAssembled src pageType page"
        by (cases m) simp_all
      with iff Cons.prems(2) e show ?thesis by simp
    next
      case False
      then have "observed_pages [e] = []"
        using e by (cases m) simp_all
      with iff False Cons.prems(4) True show ?thesis by simp
    qed
    ultimately show ?thesis by simp
  next
    case False
    with Cons.prems(3) have ended: "p_status (pipelineState a) = completed" by simp
    from onMessage_terminal [OF False, of m now] step
    have "p_status (pipelineState a1) = completed"
      using ended by simp
    moreover from ended Cons.prems(4)
    have "obs @ observed_pages [e] \<noteq> [] \<and> set pagesToGenerate \<subseteq> set (obs @ observed_pages [e])"
      by auto
    ultimately show ?thesis by simp
  qed
  from Cons.IH [OF run1 received1 status1 [THEN conjunct1] status1 [THEN conjunct2] later rest]
  show ?case
    using observed_pages_Cons [of e events] by simp
qed

text \<open>
  Claim C7 (as amended). Take a run started by \<open>runPipeline(rawData, pagesToGenerate)\<close>
  that is still \<open>running\<close> after the messages observed so far. The message it handles next
  makes it \<open>completed\<close> exactly when that message is an output-produced message and the
  output names observed since \<open>runPipeline\<close>, this one included, cover the expected
  outputs. Then the pending result is resolved, once, with an output that lists the names
  received, in the order of their first arrival, and holds the last page received under
  each of the names \<open>faq\<close>, \<open>product\<close> and \<open>comparison\<close>; a page received under another
  name is not kept. Otherwise, unless the message reports a worker error, the run stays
  \<open>running\<close> and nothing is resolved. \<open>runPipeline\<close> itself leaves the run \<open>running\<close> with
  nothing resolved, whatever the expected outputs. Over a whole series of messages without
  a worker error, the run is \<open>completed\<close> at the end exactly when the series holds an
  output-produced message and its output names cover the expected outputs.
\<close>

theorem page_assembled_completion:
  assumes "observe earlier (runPipeline raw pagesToGenerate now0 a0) = Inr a"
    and "p_status (pipelineState a) = running"
  shows "(\<exists>a'. onMessage m now a = Inr a' \<and>
       (p_status (pipelineState a') = completed \<longleftrightarrow>
          is_page_assembled m \<and>
          set pagesToGenerate \<subseteq> set (observed_pages (earlier @ [(m, now)]))) \<and>
       (p_status (pipelineState a') = completed \<longrightarrow>
          (\<exists>summ. settled a' = [Resolved summ] \<and>
             pagesGenerated summ = fold set_add (observed_pages (earlier @ [(m, now)])) [] \<and>
             out_pages (read_output a' summ) =
               \<lparr>faq = last_page ''faq'' (earlier @ [(m, now)]),
                product_page = last_page ''product'' (earlier @ [(m, now)]),
                comparison = last_page ''comparison'' (earlier @ [(m, now)])\<rparr>)) \<and>
       (p_status (pipelineState a') \<noteq> completed \<and> \<not> is_agent_error m \<longrightarrow>
          p_status (pipelineState a') = running \<and> settled a' = [])) \<and>
     p_status (pipelineState (runPipeline raw pagesToGenerate now0 a0)) = running \<and>
     settled (runPipeline raw pagesToGenerate now0 a0) = [] \<and>
     (\<forall>events a''. observe events (runPipeline raw pagesToGenerate now0 a0) = Inr a'' \<and>
          \<not> list_ex is_agent_error (map fst events) \<longrightarrow>
        (p_status (pipelineState a'') = completed \<longleftrightarrow>
           observed_pages events \<noteq> [] \<and> set pagesToGenerate \<subseteq> set (observed_pages events)))"
proof (intro conjI allI impI)
  note run = observe_run [OF assms(1)]
  from onMessage_running [OF run(1) assms(2), of m now]
  obtain a' where step: "onMessage m now a = Inr a'"
    and iff: "p_status (pipelineState a') = completed \<longleftrightarrow>
        is_page_assembled m \<and>
        set pagesToGenerate \<subseteq>
          set (receivedPages (pipelineState a)) \<union> set (observed_pages [(m, now)])"
    and resolved: "p_status (pipelineState a') = completed \<longrightarrow>
        (\<exists>summ. settled a' = [Resolved summ] \<and>
           pagesGenerated summ = receivedPages (pipelineState a'))"
    and failed_iff: "p_status (pipelineState a') = failed \<longleftrightarrow> is_agent_error m"
    and waiting: "p_status (pipelineState a') = running \<longrightarrow> settled a' = []"
    and started: "p_status (pipelineState a') \<noteq> idle"
    by blast
  have whole: "observe (earlier @ [(m, now)]) (runPipeline raw pagesToGenerate now0 a0) = Inr a'"
    using assms(1) step by (simp add: observe_append)
  have names: "set (observed_pages (earlier @ [(m, now)])) =
      set (receivedPages (pipelineState a)) \<union> set (observed_pages [(m, now)])"
    using run(2) by (simp add: observed_pages_append)
  have received: "receivedPages (pipelineState a') =
      fold set_add (observed_pages (earlier @ [(m, now)])) []"
    using observe_received [OF whole] by simp
  have "(p_status (pipelineState a') = completed \<longleftrightarrow>
          is_page_assembled m \<and>
          set pagesToGenerate \<subseteq> set (observed_pages (earlier @ [(m, now)]))) \<and>
       (p_status (pipelineState a') = completed \<longrightarrow>
          (\<exists>summ. settled a' = [Resolved summ] \<and>
             pagesGenerated summ = fold set_add (observed_pages (earlier @ [(m, now)])) [] \<and>
             out_pages (read_output a' summ) =
               \<lparr>faq = last_page ''faq'' (earlier @ [(m, now)]),
                product_page = last_page ''product'' (earlier @ [(m, now)]),
                comparison = last_page ''comparison'' (earlier @ [(m, now)])\<rparr>)) \<and>
       (p_status (pipelineState a') \<noteq> completed \<and> \<not> is_agent_error m \<longrightarrow>
          p_status (pipelineState a') = running \<and> settled a' = [])"
  proof (intro conjI impI)
    show "p_status (pipelineState a') = completed \<longleftrightarrow>
          is_page_assembled m \<and>
          set pagesToGenerate \<subseteq> set (observed_pages (earlier @ [(m, now)]))"
      using iff names by simp
  next
    assume "p_status (pipelineState a') = completed"
    with resolved obtain summ where "settled a' = [Resolved summ]"
      and "pagesGenerated summ = receivedPages (pipelineState a')"
      by blast
    with received run_pages [OF whole, of summ]
    show "\<exists>summ. settled a' = [Resolved summ] \<and>
             pagesGenerated summ = fold set_add (observed_pages (earlier @ [(m, now)])) [] \<and>
             out_pages (read_output a' summ) =
               \<lparr>faq = last_page ''faq'' (earlier @ [(m, now)]),
                product_page = last_page ''product'' (earlier @ [(m, now)]),
                comparison = last_page ''comparison'' (earlier @ [(m, now)])\<rparr>"
      by (intro exI [of _ summ]) simp
  next
    assume other: "p_status (pipelineState a') \<noteq> completed \<and> \<not> is_agent_error m"
    with failed_iff started have "p_status (pipelineState a') = running"
      by (cases "p_status (pipelineState a')") simp_all
    with waiting show "p_status (pipelineState a') = running" and "settled a' = []"
      by simp_all
  qed
  with step show "\<exists>a'. onMessage m now a = Inr a' \<and>
       (p_status (pipelineState a') = completed \<longleftrightarrow>
          is_page_assembled m \<and>
          set pagesToGenerate \<subseteq> set (observed_pages (earlier @ [(m, now)]))) \<and>
       (p_status (pipelineState a') = completed \<longrightarrow>
          (\<exists>summ. settled a' = [Resolved summ] \<and>
             pagesGenerated summ = fold set_add (observed_pages (earlier @ [(m, now)])) [] \<and>
             out_pages (read_output a' summ) =
               \<lparr>faq = last_page ''faq'' (earlier @ [(m, now)]),
                product_page = last_page ''product'' (earlier @ [(m, now)]),
                comparison = last_page ''comparison'' (earlier @ [(m, now)])\<rparr>)) \<and>
       (p_status (pipelineState a') \<noteq> completed \<and> \<not> is_agent_error m \<longrightarrow>
          p_status (pipelineState a') = running \<and> settled a' = [])"
    by (intro exI [of _ a']) simp
next
  show "p_status (pipelineState (runPipeline raw pagesToGenerate now0 a0)) = running"
    by simp
next
  show "settled (runPipeline raw pagesToGenerate now0 a0) = []"
    by simp
next
  fix events a''
  assume "observe events (runPipeline raw pagesToGenerate now0 a0) = Inr a'' \<and>
          \<not> list_ex is_agent_error (map fst events)"
  then have series: "observe events (runPipeline raw pagesToGenerate now0 a0) = Inr a''"
    and error_free: "\<not> list_ex is_agent_error (map fst events)"
    by simp_all
  have "set (receivedPages (pipelineState (runPipeline raw pagesToGenerate now0 a0))) = set []"
    by simp
  from error_free_observe [OF run_of_runPipeline this _ _ error_free series]
  show "p_status (pipelineState a'') = completed \<longleftrightarrow>
           observed_pages events \<noteq> [] \<and> set pagesToGenerate \<subseteq> set (observed_pages events)"
    by simp
qed

lemma run_faq_product_state:
  "observe [] (runPipeline ''raw'' [''faq'', ''product''] 0
      (new_OrchestratorAgent ''orchestrator-agent'')) = Inr run_faq_product"
  "p_status (pipelineState run_faq_product) = running"
  by (simp_all add: run_faq_product_def)

theorem page_assembled_completion_witness:
  "status_of (observe [(PageAssembled ''page-assembly-agent'' ''faq'' ''page f'', 5)]
       run_faq_product) = Some running \<and>
   settled_of (observe [(PageAssembled ''page-assembly-agent'' ''faq'' ''page f'', 5)]
       run_faq_product) = Some [] \<and>
   status_of (observe [(PageAssembled ''page-assembly-agent'' ''faq'' ''page f'', 5),
                       (PageAssembled ''page-assembly-agent'' ''product'' ''page p'', 9)]
       run_faq_product) = Some completed \<and>
   delivered_of (observe [(PageAssembled ''page-assembly-agent'' ''faq'' ''page f'', 5),
                       (PageAssembled ''page-assembly-agent'' ''product'' ''page p'', 9)]
       run_faq_product)
     = Some [Some ([''faq'', ''product''],
          \<lparr>faq = Some ''page f'', product_page = Some ''page p'', comparison = None\<rparr>)]"
proof -
  let ?f = "PageAssembled ''page-assembly-agent'' ''faq'' ''page f''"
  let ?p = "PageAssembled ''page-assembly-agent'' ''product'' ''page p''"
  from page_assembled_completion [OF run_faq_product_state, of ?f 5, THEN conjunct1]
  obtain a1 where one: "onMessage ?f 5 run_faq_product = Inr a1"
    and st1: "p_status (pipelineState a1) = running" "settled a1 = []"
    by auto
  have earlier: "observe [(?f, 5)]
      (runPipeline ''raw'' [''faq'', ''product''] 0 (new_OrchestratorAgent ''orchestrator-agent''))
     = Inr a1"
    using one by (simp add: run_faq_product_def)
  from page_assembled_completion [OF earlier st1(1), of ?p 9, THEN conjunct1]
  obtain a2 summ where two: "onMessage ?p 9 a1 = Inr a2"
    and st2: "p_status (pipelineState a2) = completed" "settled a2 = [Resolved summ]"
      "pagesGenerated summ = [''faq'', ''product'']"
      "out_pages (read_output a2 summ) =
         \<lparr>faq = Some ''page f'', product_page = Some ''page p'', comparison = None\<rparr>"
    by (auto simp: set_add_def)
  from one two st1 st2 show ?thesis
    by (simp add: status_of_def settled_of_def delivered_of_def read_output_def)
qed

text \<open>
  The claim as first stated has the run completed exactly when the names received cover the
  expected ones, with all collected outputs delivered. A run whose expected outputs are
  none is covered from the start and is \<open>running\<close>, with nothing resolved: completion is
  looked at only when an output-produced message is handled. And the run with the expected
  outputs \<open>a\<close> and \<open>b\<close> completes with an output that names both and holds neither page.
\<close>

theorem covered_run_still_running:
  "allReceived (pipelineState (runPipeline ''raw'' [] 0 (new_OrchestratorAgent ''orchestrator-agent''))) \<and>
   p_status (pipelineState (runPipeline ''raw'' [] 0 (new_OrchestratorAgent ''orchestrator-agent'')))
     = running \<and>
   settled (runPipeline ''raw'' [] 0 (new_OrchestratorAgent ''orchestrator-agent'')) = [] \<and>
   status_of (observe [(PageAssembled ''page-assembly-agent'' ''a'' ''page a'', 5),
                       (PageAssembled ''page-assembly-agent'' ''b'' ''page b'', 9)] run_ab)
     = Some completed \<and>
   delivered_of (observe [(PageAssembled ''page-assembly-agent'' ''a'' ''page a'', 5),
                       (PageAssembled ''page-assembly-agent'' ''b'' ''page b'', 9)] run_ab)
     = Some [Some ([''a'', ''b''], \<lparr>faq = None, product_page = None, comparison = None\<rparr>)]"
  by code_simp

text \<open>
  Claim C8. Take a run started by \<open>runPipeline\<close> that is still \<open>running\<close> after the
  messages observed so far. A worker-error message makes it \<open>failed\<close> and rejects the
  pending result; whatever messages follow, the run stays \<open>failed\<close> and the rejection stays
  the only call to the run's callbacks. Any series of messages after \<open>runPipeline\<close> is
  handled without an exception and calls the callbacks at most once.
\<close>

theorem agent_error_is_final:
  assumes "observe earlier (runPipeline raw pagesToGenerate now0 a0) = Inr a"
    and "p_status (pipelineState a) = running"
  shows "(\<exists>a'. observe ((AgentError agentId err, now) # later) a = Inr a' \<and>
         p_status (pipelineState a') = failed \<and>
         settled a' = [Rejected (''Pipeline failed: '' @ err)]) \<and>
   (\<exists>a''. observe events (runPipeline raw pagesToGenerate now0 a0) = Inr a'' \<and>
      length (settled a'') \<le> 1)"
proof
  from observe_run(1) [OF assms(1)] assms(2)
  have cb: "rejectCompletion a" and none: "settled a = []"
    by (simp_all add: run_of_def)
  let ?a1 = "handleAgentError agentId err now a"
  have "p_status (pipelineState ?a1) \<noteq> running"
    using handleAgentError_running(1) [OF assms(2) cb, of agentId err now] by simp
  from observe_terminal [OF this, of later]
  obtain a' where "observe later ?a1 = Inr a'"
    and "p_status (pipelineState a') = p_status (pipelineState ?a1)"
    and "settled a' = settled ?a1"
    by blast
  then show "\<exists>a'. observe ((AgentError agentId err, now) # later) a = Inr a' \<and>
         p_status (pipelineState a') = failed \<and>
         settled a' = [Rejected (''Pipeline failed: '' @ err)]"
    using handleAgentError_running [OF assms(2) cb, of agentId err now] none by simp
next
  from observe_total [of events raw pagesToGenerate now0 a0]
  obtain a' where "observe events (runPipeline raw pagesToGenerate now0 a0) = Inr a'"
    and "run_of pagesToGenerate a'"
    by blast
  then show "\<exists>a''. observe events (runPipeline raw pagesToGenerate now0 a0) = Inr a'' \<and>
      length (settled a'') \<le> 1"
    by (auto simp: run_of_def split: if_splits)
qed

theorem agent_error_is_final_witness:
  "status_of (observe [(PageAssembled ''page-assembly-agent'' ''a'' ''page a'', 5),
       (AgentError ''content-logic-agent'' ''boom'', 7)] run_ab) = Some failed \<and>
   settled_of (observe [(PageAssembled ''page-assembly-agent'' ''a'' ''page a'', 5),
       (AgentError ''content-logic-agent'' ''boom'', 7)] run_ab)
     = Some [Rejected ''Pipeline failed: boom''] \<and>
   status_of (observe [(PageAssembled ''page-assembly-agent'' ''a'' ''page a'', 5),
       (AgentError ''content-logic-agent'' ''boom'', 7),
       (PageAssembled ''page-assembly-agent'' ''b'' ''page b'', 9)] run_ab) = Some failed \<and>
   settled_of (observe [(PageAssembled ''page-assembly-agent'' ''a'' ''page a'', 5),
       (AgentError ''content-logic-agent'' ''boom'', 7),
       (PageAssembled ''page-assembly-agent'' ''b'' ''page b'', 9)] run_ab)
     = Some [Rejected ''Pipeline failed: boom'']"
proof -
  have step: "handlePageAssembled ''page-assembly-agent'' ''a'' ''page a'' 5 run_ab \<noteq> Inl TypeError"
    "status_of (handlePageAssembled ''page-assembly-agent'' ''a'' ''page a'' 5 run_ab)
      = Some running"
    by code_simp+
  then obtain a1 where one:
      "handlePageAssembled ''page-assembly-agent'' ''a'' ''page a'' 5 run_ab = Inr a1"
    and running: "p_status (pipelineState a1) = running"
    by (cases "handlePageAssembled ''page-assembly-agent'' ''a'' ''page a'' 5 run_ab")
       (auto simp: status_of_def)
  have earlier: "observe [(PageAssembled ''page-assembly-agent'' ''a'' ''page a'', 5)]
      (runPipeline ''raw'' [''a'', ''b''] 0 (new_OrchestratorAgent ''orchestrator-agent''))
     = Inr a1"
    using one by (simp add: run_ab_def)
  from agent_error_is_final [OF earlier running, of "''content-logic-agent''" "''boom''" 7 "[]" "[]",
      THEN conjunct1]
  obtain a2 where "observe [(AgentError ''content-logic-agent'' ''boom'', 7)] a1 = Inr a2"
    and "p_status (pipelineState a2) = failed"
    and "settled a2 = [Rejected ''Pipeline failed: boom'']"
    by auto
  then have short:
    "status_of (observe [(AgentError ''content-logic-agent'' ''boom'', 7)] a1) = Some failed"
    "settled_of (observe [(AgentError ''content-logic-agent'' ''boom'', 7)] a1)
       = Some [Rejected ''Pipeline failed: boom'']"
    by (simp_all add: status_of_def settled_of_def)
  from agent_error_is_final [OF earlier running, of "''content-logic-agent''" "''boom''" 7
      "[(PageAssembled ''page-assembly-agent'' ''b'' ''page b'', 9)]" "[]", THEN conjunct1]
  obtain a3 where "observe [(AgentError ''content-logic-agent'' ''boom'', 7),
        (PageAssembled ''page-assembly-agent'' ''b'' ''page b'', 9)] a1 = Inr a3"
    and "p_status (pipelineState a3) = failed"
    and "settled a3 = [Rejected ''Pipeline failed: boom'']"
    by auto
  then have long: "status_of (observe [(AgentError ''content-logic-agent'' ''boom'', 7),
        (PageAssembled ''page-assembly-agent'' ''b'' ''page b'', 9)] a1) = Some failed"
    "settled_of (observe [(AgentError ''content-logic-agent'' ''boom'', 7),
        (PageAssembled ''page-assembly-agent'' ''b'' ''page b'', 9)] a1)
       = Some [Rejected ''Pipeline failed: boom'']"
    by (simp_all add: status_of_def settled_of_def)
  from short long one show ?thesis
    by simp
qed

section \<open>Properties of the task queue\<close>

lemma announce_fields [simp]:
  "queue (announce src ty pl options now s) = queue s"
  "registry (announce src ty pl options now s) = registry s"
  "listeners (bus (announce src ty pl options now s)) = listeners (bus s)"
  by (simp_all add: announce_def bus_after_def publish_def generateMessageId_def Let_def)

lemma updateStatus_fields [simp]:
  "queue (updateStatus ident st now s) = queue s"
  "registry (updateStatus ident st now s) = registry_updateStatus ident st now (registry s)"
  "listeners (bus (updateStatus ident st now s)) = listeners (bus s)"
  by (simp_all add: updateStatus_def registry_updateStatus_def Let_def split: option.splits)

lemma only_assigns_refl: "only_assigns ts ts"
  by (simp add: only_assigns_def)

lemma only_assigns_trans:
  assumes "only_assigns ts ts'" and "only_assigns ts' ts''"
  shows "only_assigns ts ts''"
  unfolding only_assigns_def
proof
  fix i
  from assms(1) have "ts' i = ts i \<or>
        (\<exists>t w. ts i = Some t \<and> task_status t = PENDING \<and>
           ts' i = Some (t\<lparr>task_status := ASSIGNED, assignedTo := Some w\<rparr>))"
    unfolding only_assigns_def by (rule spec)
  then consider (same) "ts' i = ts i"
    | (assigned) t w where "ts i = Some t" "task_status t = PENDING"
        "ts' i = Some (t\<lparr>task_status := ASSIGNED, assignedTo := Some w\<rparr>)"
    by blast
  then show "ts'' i = ts i \<or>
        (\<exists>t w. ts i = Some t \<and> task_status t = PENDING \<and>
           ts'' i = Some (t\<lparr>task_status := ASSIGNED, assignedTo := Some w\<rparr>))"
  proof cases
    case same
    from assms(2) have "ts'' i = ts' i \<or>
        (\<exists>t w. ts' i = Some t \<and> task_status t = PENDING \<and>
           ts'' i = Some (t\<lparr>task_status := ASSIGNED, assignedTo := Some w\<rparr>))"
      unfolding only_assigns_def by (rule spec)
    with same show ?thesis
      by simp
  next
    case assigned
    from assms(2) have "ts'' i = ts' i \<or>
        (\<exists>t w. ts' i = Some t \<and> task_status t = PENDING \<and>
           ts'' i = Some (t\<lparr>task_status := ASSIGNED, assignedTo := Some w\<rparr>))"
      unfolding only_assigns_def by (rule spec)
    with assigned show ?thesis
      by auto
  qed
qed

lemma only_assigns_update:
  assumes "ts i = Some t" and "task_status t = PENDING"
  shows "only_assigns ts (ts(i \<mapsto> t\<lparr>task_status := ASSIGNED, assignedTo := Some w\<rparr>))"
  using assms by (auto simp: only_assigns_def)

lemma assign_step_cases [case_names skip assign]:
  obtains "assign_step now x (s, acc) = (s, acc)"
  | t agent others where
      "tasks (queue s) x = Some t" "task_status t = PENDING"
      "areDependenciesMet (tasks (queue s)) (dependencies t)"
      "findReadyByCapability (requiredCapability t) (registry s) = agent # others"
      "tasks (queue (fst (assign_step now x (s, acc)))) =
        (tasks (queue s))(x \<mapsto> t\<lparr>task_status := ASSIGNED, assignedTo := Some (agent_id agent)\<rparr>)"
      "pendingQueue (queue (fst (assign_step now x (s, acc)))) = pendingQueue (queue s)"
      "taskIdCounter (queue (fst (assign_step now x (s, acc)))) = taskIdCounter (queue s)"
      "registry (fst (assign_step now x (s, acc))) =
        registry_updateStatus (agent_id agent) BUSY now (registry s)"
      "listeners (bus (fst (assign_step now x (s, acc)))) = listeners (bus s)"
      "snd (assign_step now x (s, acc)) = acc @ [x]"
proof (cases "tasks (queue s) x")
  case None
  then have "assign_step now x (s, acc) = (s, acc)"
    by (simp add: assign_step_def)
  then show ?thesis by (rule that(1))
next
  case (Some t)
  show ?thesis
  proof (cases "task_status t = PENDING \<and> areDependenciesMet (tasks (queue s)) (dependencies t)")
    case False
    with Some have "assign_step now x (s, acc) = (s, acc)"
      by (auto simp: assign_step_def)
    then show ?thesis by (rule that(1))
  next
    case True
    show ?thesis
    proof (cases "findReadyByCapability (requiredCapability t) (registry s)")
      case Nil
      with Some True have "assign_step now x (s, acc) = (s, acc)"
        by (simp add: assign_step_def)
      then show ?thesis by (rule that(1))
    next
      case (Cons agent others)
      with Some True show ?thesis
        by (intro that(2) [of t agent others]) (simp_all add: assign_step_def Let_def)
    qed
  qed
qed

lemma assign_step_only_assigns_pair:
  "only_assigns (tasks (queue s)) (tasks (queue (fst (assign_step now x (s, acc)))))"
proof (cases rule: assign_step_cases [of now x s acc])
  case skip
  then show ?thesis by (simp add: only_assigns_refl)
next
  case (assign t agent others)
  then show ?thesis by (simp add: only_assigns_update)
qed

lemma assign_step_only_assigns:
  "only_assigns (tasks (queue (fst st))) (tasks (queue (fst (assign_step now x st))))"
  using assign_step_only_assigns_pair [of "fst st" now x "snd st"] by simp

lemma assign_step_frame:
  "pendingQueue (queue (fst (assign_step now x st))) = pendingQueue (queue (fst st))"
  "taskIdCounter (queue (fst (assign_step now x st))) = taskIdCounter (queue (fst st))"
  "listeners (bus (fst (assign_step now x st))) = listeners (bus (fst st))"
  by (cases rule: assign_step_cases [of now x "fst st" "snd st"]; simp)+

lemma assign_step_other:
  assumes "i \<noteq> x"
  shows "tasks (queue (fst (assign_step now x st))) i = tasks (queue (fst st)) i"
  using assms by (cases rule: assign_step_cases [of now x "fst st" "snd st"]) simp_all

lemma fold_assign_only_assigns:
  "only_assigns (tasks (queue (fst st))) (tasks (queue (fst (fold (assign_step now) xs st))))"
proof (induction xs arbitrary: st)
  case Nil
  show ?case by (simp add: only_assigns_refl)
next
  case (Cons x xs)
  from assign_step_only_assigns [of st now x] Cons.IH [of "assign_step now x st"]
  show ?case
    by (simp add: only_assigns_trans)
qed

lemma fold_assign_frame:
  "pendingQueue (queue (fst (fold (assign_step now) xs st))) = pendingQueue (queue (fst st))"
  "taskIdCounter (queue (fst (fold (assign_step now) xs st))) = taskIdCounter (queue (fst st))"
  "listeners (bus (fst (fold (assign_step now) xs st))) = listeners (bus (fst st))"
  by (induction xs arbitrary: st) (simp_all add: assign_step_frame)

lemma fold_assign_other:
  assumes "i \<notin> set xs"
  shows "tasks (queue (fst (fold (assign_step now) xs st))) i = tasks (queue (fst st)) i"
  using assms by (induction xs arbitrary: st) (simp_all add: assign_step_other)

lemma processQueue_tasks:
  "tasks (queue (processQueue now s)) =
     tasks (queue (fst (fold (assign_step now) (pendingQueue (queue s)) (s, []))))"
  by (simp add: processQueue_def split_beta)

lemma processQueue_pending:
  "pendingQueue (queue (processQueue now s)) =
     filter (\<lambda>i. i \<notin> set (snd (fold (assign_step now) (pendingQueue (queue s)) (s, []))))
       (pendingQueue (queue s))"
  using fold_assign_frame(1) [of now "pendingQueue (queue s)" "(s, [])"]
  by (simp add: processQueue_def split_beta)

lemma processQueue_frame [simp]:
  "taskIdCounter (queue (processQueue now s)) = taskIdCounter (queue s)"
  "listeners (bus (processQueue now s)) = listeners (bus s)"
  using fold_assign_frame(2,3) [of now "pendingQueue (queue s)" "(s, [])"]
  by (simp_all add: processQueue_def split_beta)

lemma processQueue_only_assigns:
  "only_assigns (tasks (queue s)) (tasks (queue (processQueue now s)))"
  using fold_assign_only_assigns [of "(s, [])" now "pendingQueue (queue s)"]
  by (simp add: processQueue_tasks)

lemma enqueue_fields [simp]:
  "tasks (enqueue tid q) = tasks q" "taskIdCounter (enqueue tid q) = taskIdCounter q"
  by (simp_all add: enqueue_def split: option.splits)

lemma handleTaskCompletion_listeners [simp]:
  "listeners (bus (handleTaskCompletion tid r now s)) = listeners (bus s)"
  by (simp add: handleTaskCompletion_def Let_def split_beta split: option.splits)

lemma handleTaskCompletion_counter [simp]:
  "taskIdCounter (queue (handleTaskCompletion tid r now s)) = taskIdCounter (queue s)"
  by (simp add: handleTaskCompletion_def Let_def split_beta split: option.splits)

lemma handleTaskCompletion_task:
  assumes "tasks (queue s) tid = Some t0"
  shows "only_assigns ((tasks (queue s))(tid \<mapsto> fst (record_outcome r now t0)))
           (tasks (queue (handleTaskCompletion tid r now s)))"
proof -
  define task where "task = fst (record_outcome r now t0)"
  define again where "again = snd (record_outcome r now t0)"
  define q1 where "q1 = (queue s)\<lparr>tasks := (tasks (queue s))(tid \<mapsto> task)\<rparr>"
  define s1 where "s1 = s\<lparr>queue := (if again then enqueue tid q1 else q1)\<rparr>"
  define s2 where "s2 = (case assignedTo task of
                       None \<Rightarrow> s1
                     | Some worker \<Rightarrow>
                         if worker \<noteq> [] then updateStatus worker READY now s1 else s1)"
  have call: "handleTaskCompletion tid r now s = processQueue now s2"
    using assms
    unfolding handleTaskCompletion_def s2_def s1_def q1_def task_def again_def
    by (simp add: Let_def split_beta)
  have "tasks (queue s2) = (tasks (queue s))(tid \<mapsto> task)"
    by (simp add: s2_def s1_def q1_def split: option.splits)
  with processQueue_only_assigns [of s2 now] call show ?thesis
    by (simp add: task_def)
qed

lemma handleTaskCompletion_failure:
  assumes "tasks (queue s) tid = Some t0" and "\<not> success r"
  shows "\<exists>t'. tasks (queue (handleTaskCompletion tid r now s)) tid = Some t' \<and>
     retryCount t' = retryCount t0 + 1 \<and> maxRetries t' = maxRetries t0 \<and>
     (if int (retryCount t0 + 1) < maxRetries t0
      then task_status t' = PENDING \<or> task_status t' = ASSIGNED
      else task_status t' = FAILED)"
proof -
  let ?task = "fst (record_outcome r now t0)"
  let ?ts' = "tasks (queue (handleTaskCompletion tid r now s))"
  have outcome: "retryCount ?task = retryCount t0 + 1" "maxRetries ?task = maxRetries t0"
    "task_status ?task = (if int (retryCount t0 + 1) < maxRetries t0 then PENDING else FAILED)"
    using assms(2) by (simp_all add: record_outcome_def Let_def)
  from handleTaskCompletion_task [OF assms(1), of r now]
  have "?ts' tid = ((tasks (queue s))(tid \<mapsto> ?task)) tid \<or>
        (\<exists>t w. ((tasks (queue s))(tid \<mapsto> ?task)) tid = Some t \<and> task_status t = PENDING \<and>
           ?ts' tid = Some (t\<lparr>task_status := ASSIGNED, assignedTo := Some w\<rparr>))"
    unfolding only_assigns_def by (rule spec)
  then consider (same) "?ts' tid = Some ?task"
    | (assigned) w where "task_status ?task = PENDING"
        "?ts' tid = Some (?task\<lparr>task_status := ASSIGNED, assignedTo := Some w\<rparr>)"
    by auto
  then show ?thesis
  proof cases
    case same
    with outcome show ?thesis by simp
  next
    case assigned
    with outcome show ?thesis by (simp split: if_splits)
  qed
qed

lemma fold_dispatch_agents:
  "fold (dispatch m now) hs s =
     fold (dispatch m now) (filter (\<lambda>h. h = TaskCompletionHandler) hs) s"
proof (induction hs arbitrary: s)
  case Nil
  show ?case by simp
next
  case (Cons h hs)
  then show ?case
    by (cases h) (simp_all add: dispatch_def)
qed

lemma failTask_listening:
  assumes "queue_listening s" and "tasks (queue s) tid = Some t"
  shows "\<exists>b r. failTask tid err now s = handleTaskCompletion tid r now (s\<lparr>bus := b\<rparr>) \<and>
     \<not> success r \<and> listeners b = listeners (bus s)"
proof -
  let ?r = "\<lparr>res_taskId = tid, success = False, res_data = None, res_error = Some err,
             executionTimeMs = executionTime t now\<rparr>"
  let ?p = "publish (source_of t) TASK_COMPLETED (TaskCompletedInfo tid ?r) no_options now (bus s)"
  have "invoked ?p = map snd (listeners (bus s) TASK_COMPLETED)"
    by (simp add: invoked_publish no_options_def truthy_def)
  with assms(1) have inv: "filter (\<lambda>h. h = TaskCompletionHandler) (invoked ?p) =
      [TaskCompletionHandler]"
    by (simp add: queue_listening_def)
  have msg: "payload (fst ?p) = TaskCompletedInfo tid ?r"
    by (simp add: publish_def generateMessageId_def Let_def)
  have lst: "listeners (bus_after ?p) = listeners (bus s)"
    by (simp add: bus_after_def publish_def generateMessageId_def Let_def)
  have "failTask tid err now s =
      fold (dispatch (fst ?p) now) (invoked ?p) (s\<lparr>bus := bus_after ?p\<rparr>)"
    using assms(2) by (simp add: failTask_def publish_completed_def Let_def)
  also have "\<dots> = fold (dispatch (fst ?p) now)
      (filter (\<lambda>h. h = TaskCompletionHandler) (invoked ?p)) (s\<lparr>bus := bus_after ?p\<rparr>)"
    by (rule fold_dispatch_agents)
  finally have "failTask tid err now s =
      handleTaskCompletion tid ?r now (s\<lparr>bus := bus_after ?p\<rparr>)"
    by (simp add: inv dispatch_def msg)
  with lst show ?thesis
    by (intro exI [of _ "bus_after ?p"] exI [of _ ?r]) simp
qed

lemma failTask_step:
  assumes "queue_listening s" and "tasks (queue s) tid = Some t0"
  shows "queue_listening (failTask tid err now s) \<and>
     (\<exists>t'. tasks (queue (failTask tid err now s)) tid = Some t' \<and>
        retryCount t' = retryCount t0 + 1 \<and> maxRetries t' = maxRetries t0 \<and>
        (if int (retryCount t0 + 1) < maxRetries t0
         then task_status t' = PENDING \<or> task_status t' = ASSIGNED
         else task_status t' = FAILED))"
proof -
  from failTask_listening [OF assms, of err now]
  obtain b r where call: "failTask tid err now s = handleTaskCompletion tid r now (s\<lparr>bus := b\<rparr>)"
    and fail: "\<not> success r" and lst: "listeners b = listeners (bus s)"
    by blast
  have "tasks (queue (s\<lparr>bus := b\<rparr>)) tid = Some t0"
    using assms(2) by simp
  from handleTaskCompletion_failure [OF this fail, of now] call lst assms(1)
  show ?thesis
    by (simp add: queue_listening_def)
qed

lemma only_assigns_dependencies:
  assumes "only_assigns ts ts'"
  shows "areDependenciesMet ts' ds = areDependenciesMet ts ds"
proof (induction ds)
  case Nil
  show ?case by simp
next
  case (Cons d ds)
  from assms have "ts' d = ts d \<or>
        (\<exists>t w. ts d = Some t \<and> task_status t = PENDING \<and>
           ts' d = Some (t\<lparr>task_status := ASSIGNED, assignedTo := Some w\<rparr>))"
    unfolding only_assigns_def by (rule spec)
  then show ?case
  proof
    assume "ts' d = ts d"
    with Cons.IH show ?thesis by (simp split: option.splits)
  next
    assume "\<exists>t w. ts d = Some t \<and> task_status t = PENDING \<and>
           ts' d = Some (t\<lparr>task_status := ASSIGNED, assignedTo := Some w\<rparr>)"
    then show ?thesis by auto
  qed
qed

lemma assign_step_acc:
  "snd (assign_step now x st) = snd st \<or>
   (snd (assign_step now x st) = snd st @ [x] \<and>
    (\<exists>t. tasks (queue (fst st)) x = Some t \<and> task_status t = PENDING \<and>
         areDependenciesMet (tasks (queue (fst st))) (dependencies t)))"
  by (cases rule: assign_step_cases [of now x "fst st" "snd st"]) simp_all

lemma assign_step_blocked:
  assumes "tasks (queue (fst st)) tid = Some t"
    and "\<not> areDependenciesMet (tasks (queue (fst st))) (dependencies t)"
  shows "tasks (queue (fst (assign_step now x st))) tid = Some t"
    and "\<not> areDependenciesMet (tasks (queue (fst (assign_step now x st)))) (dependencies t)"
    and "tid \<notin> set (snd st) \<Longrightarrow> tid \<notin> set (snd (assign_step now x st))"
proof -
  show one: "tasks (queue (fst (assign_step now x st))) tid = Some t"
  proof (cases "x = tid")
    case True
    show ?thesis
    proof (cases rule: assign_step_cases [of now x "fst st" "snd st"])
      case skip
      with assms(1) show ?thesis by simp
    next
      case (assign t' agent others)
      with assms True show ?thesis by simp
    qed
  next
    case False
    with assms(1) show ?thesis by (simp add: assign_step_other)
  qed
  show "\<not> areDependenciesMet (tasks (queue (fst (assign_step now x st)))) (dependencies t)"
    using assms(2) only_assigns_dependencies [OF assign_step_only_assigns [of st now x]]
    by simp
  show "tid \<notin> set (snd (assign_step now x st))" if "tid \<notin> set (snd st)"
    using assign_step_acc [of now x st] that assms by auto
qed

lemma fold_assign_blocked:
  assumes "tasks (queue (fst st)) tid = Some t"
    and "\<not> areDependenciesMet (tasks (queue (fst st))) (dependencies t)"
    and "tid \<notin> set (snd st)"
  shows "tasks (queue (fst (fold (assign_step now) xs st))) tid = Some t \<and>
     tid \<notin> set (snd (fold (assign_step now) xs st))"
  using assms
proof (induction xs arbitrary: st)
  case Nil
  then show ?case by simp
next
  case (Cons x xs)
  from assign_step_blocked [OF Cons.prems(1,2), of now x] Cons.prems(3)
  have "tasks (queue (fst (assign_step now x st))) tid = Some t"
    and "\<not> areDependenciesMet (tasks (queue (fst (assign_step now x st)))) (dependencies t)"
    and "tid \<notin> set (snd (assign_step now x st))"
    by simp_all
  from Cons.IH [OF this] show ?case by simp
qed

lemma processQueue_blocked:
  assumes "tasks (queue s) tid = Some t"
    and "\<not> areDependenciesMet (tasks (queue s)) (dependencies t)"
  shows "tasks (queue (processQueue now s)) tid = Some t"
    and "tid \<in> set (pendingQueue (queue s)) \<Longrightarrow> tid \<in> set (pendingQueue (queue (processQueue now s)))"
  using fold_assign_blocked [of "(s, [])" tid t now "pendingQueue (queue s)"] assms
  by (simp_all add: processQueue_tasks processQueue_pending)

lemma fold_assign_keeps:
  assumes "tasks (queue (fst st)) tid = Some t" and "task_status t \<noteq> PENDING"
  shows "tasks (queue (fst (fold (assign_step now) xs st))) tid = Some t"
proof -
  from fold_assign_only_assigns [of st now xs]
  have "tasks (queue (fst (fold (assign_step now) xs st))) tid = tasks (queue (fst st)) tid \<or>
        (\<exists>t w. tasks (queue (fst st)) tid = Some t \<and> task_status t = PENDING \<and>
           tasks (queue (fst (fold (assign_step now) xs st))) tid =
             Some (t\<lparr>task_status := ASSIGNED, assignedTo := Some w\<rparr>))"
    unfolding only_assigns_def by (rule spec)
  with assms show ?thesis by auto
qed

lemma assign_step_acc_mono: "set (snd st) \<subseteq> set (snd (assign_step now x st))"
  using assign_step_acc [of now x st] by auto

lemma fold_assign_acc_mono: "set (snd st) \<subseteq> set (snd (fold (assign_step now) xs st))"
proof (induction xs arbitrary: st)
  case Nil
  show ?case by simp
next
  case (Cons x xs)
  from assign_step_acc_mono [of st now x] Cons.IH [of "assign_step now x st"]
  show ?case by auto
qed

lemma assign_step_registry:
  "registry (fst (assign_step now x st)) = registry (fst st) \<or>
   (\<exists>a. registry (fst (assign_step now x st)) = registry_updateStatus a BUSY now (registry (fst st)))"
  by (cases rule: assign_step_cases [of now x "fst st" "snd st"]) auto

lemma registry_updateStatus_busy:
  assumes "agents r a = Some rec" and "agent_status rec = BUSY"
  shows "\<exists>rec'. agents (registry_updateStatus b BUSY now r) a = Some rec' \<and> agent_status rec' = BUSY"
  using assms by (auto simp: registry_updateStatus_def split: option.splits)

lemma fold_assign_busy:
  assumes "agents (registry (fst st)) a = Some rec" and "agent_status rec = BUSY"
  shows "\<exists>rec'. agents (registry (fst (fold (assign_step now) xs st))) a = Some rec' \<and>
     agent_status rec' = BUSY"
  using assms
proof (induction xs arbitrary: st rec)
  case Nil
  then show ?case by simp
next
  case (Cons x xs)
  from assign_step_registry [of now x st] Cons.prems registry_updateStatus_busy
  obtain rec1 where "agents (registry (fst (assign_step now x st))) a = Some rec1"
    and "agent_status rec1 = BUSY"
    by metis
  from Cons.IH [OF this] show ?case by simp
qed

lemma fold_assign_keyed:
  assumes "registry_keyed (registry (fst st))"
  shows "registry_keyed (registry (fst (fold (assign_step now) xs st)))"
  using assms
proof (induction xs arbitrary: st)
  case Nil
  then show ?case by simp
next
  case (Cons x xs)
  from assign_step_registry [of now x st] Cons.prems
  have "registry_keyed (registry (fst (assign_step now x st)))"
    by (auto simp: registry_keyed_updateStatus)
  from Cons.IH [OF this] show ?case by simp
qed

lemma findReady_stored:
  assumes "registry_keyed r" and "findReadyByCapability c r = w # ws"
  shows "agents r (agent_id w) = Some w"
proof -
  from assms(2) have "w \<in> set (findByCapability c r)"
    by (metis filter_is_subset findReadyByCapability_def list.set_intros(1) subsetD)
  with assms(1) show ?thesis by (rule findByCapability_keys)
qed

lemma processQueue_assigns:
  assumes keyed: "registry_keyed (registry s)"
    and queued: "tid \<in> set (pendingQueue (queue s))"
    and task: "tasks (queue s) tid = Some t" "task_status t = PENDING"
    and met: "areDependenciesMet (tasks (queue s)) (dependencies t)"
    and ready: "findReadyByCapability (requiredCapability t) (registry (scan_state now tid s)) = w # ws"
  shows "tasks (queue (processQueue now s)) tid =
       Some (t\<lparr>task_status := ASSIGNED, assignedTo := Some (agent_id w)\<rparr>)"
    and "\<exists>rec. agents (registry (processQueue now s)) (agent_id w) = Some rec \<and>
       agent_status rec = BUSY"
    and "tid \<notin> set (pendingQueue (queue (processQueue now s)))"
proof -
  define before where "before = takeWhile (\<lambda>x. x \<noteq> tid) (pendingQueue (queue s))"
  define after where "after = tl (dropWhile (\<lambda>x. x \<noteq> tid) (pendingQueue (queue s)))"
  define st0 where "st0 = fold (assign_step now) before (s, [])"
  define st1 where "st1 = assign_step now tid st0"
  define st2 where "st2 = fold (assign_step now) after st1"
  have split: "pendingQueue (queue s) = before @ tid # after"
  proof -
    from queued have "dropWhile (\<lambda>x. x \<noteq> tid) (pendingQueue (queue s)) \<noteq> []"
      by auto
    moreover from this have "hd (dropWhile (\<lambda>x. x \<noteq> tid) (pendingQueue (queue s))) = tid"
      using hd_dropWhile [of "\<lambda>x. x \<noteq> tid" "pendingQueue (queue s)"] by simp
    ultimately have "dropWhile (\<lambda>x. x \<noteq> tid) (pendingQueue (queue s)) = tid # after"
      by (metis after_def list.collapse)
    then show ?thesis
      using takeWhile_dropWhile_id [of "\<lambda>x. x \<noteq> tid" "pendingQueue (queue s)"]
      by (simp add: before_def)
  qed
  have fresh: "tid \<notin> set before"
    by (auto simp: before_def dest: set_takeWhileD)
  have whole: "fold (assign_step now) (pendingQueue (queue s)) (s, []) = st2"
    by (simp add: split st2_def st1_def st0_def)
  have at_scan: "fst st0 = scan_state now tid s"
    by (simp add: st0_def scan_state_def before_def)
  have t0: "tasks (queue (fst st0)) tid = Some t"
    using fold_assign_other [OF fresh, of now "(s, [])"] task(1) by (simp add: st0_def)
  have met0: "areDependenciesMet (tasks (queue (fst st0))) (dependencies t)"
    using only_assigns_dependencies [OF fold_assign_only_assigns [of "(s, [])" now before]] met
    by (simp add: st0_def)
  have ready0: "findReadyByCapability (requiredCapability t) (registry (fst st0)) = w # ws"
    using ready at_scan by simp
  have keyed0: "registry_keyed (registry (fst st0))"
    using fold_assign_keyed [of "(s, [])" now before] keyed by (simp add: st0_def)
  have stored: "agents (registry (fst st0)) (agent_id w) = Some w"
    using findReady_stored [OF keyed0 ready0] .
  have step: "tasks (queue (fst st1)) tid =
        Some (t\<lparr>task_status := ASSIGNED, assignedTo := Some (agent_id w)\<rparr>)"
    "registry (fst st1) = registry_updateStatus (agent_id w) BUSY now (registry (fst st0))"
    "tid \<in> set (snd st1)"
    using t0 task(2) met0 ready0
    by (simp_all add: st1_def assign_step_def Let_def)
  from step(2) stored
  have busy1: "agents (registry (fst st1)) (agent_id w) =
      Some (w\<lparr>agent_status := BUSY, lastHeartbeat := now\<rparr>)"
    by (simp add: registry_updateStatus_def)
  show "tasks (queue (processQueue now s)) tid =
       Some (t\<lparr>task_status := ASSIGNED, assignedTo := Some (agent_id w)\<rparr>)"
    using fold_assign_keeps [OF step(1), of now after] whole
    by (simp add: processQueue_tasks st2_def)
  have "registry (processQueue now s) = registry (fst st2)"
    using whole by (simp add: processQueue_def split_beta)
  with fold_assign_busy [OF busy1, of now after]
  show "\<exists>rec. agents (registry (processQueue now s)) (agent_id w) = Some rec \<and>
       agent_status rec = BUSY"
    by (simp add: st2_def)
  from fold_assign_acc_mono [of st1 now after] step(3) have "tid \<in> set (snd st2)"
    by (auto simp: st2_def)
  then show "tid \<notin> set (pendingQueue (queue (processQueue now s)))"
    using whole by (simp add: processQueue_pending)
qed

lemma insert_by_priority_position:
  "insert_by_priority ts task tid xs =
     takeWhile (\<lambda>x. \<not> lower_priority ts task x) xs @ tid #
     dropWhile (\<lambda>x. \<not> lower_priority ts task x) xs"
  by (induction xs) simp_all

lemma set_insert_by_priority [simp]:
  "set (insert_by_priority ts task tid xs) = insert tid (set xs)"
  by (induction xs) auto

lemma lower_priority_known:
  assumes "x \<in> dom ts" and "ts tid = Some task"
  shows "lower_priority ts task x \<longleftrightarrow> backlog_priority ts x < backlog_priority ts tid"
  using assms by (auto simp: lower_priority_def backlog_priority_def)

lemma insert_by_priority_sorted:
  assumes "sorted_wrt (\<lambda>x y. backlog_priority ts x \<ge> backlog_priority ts y) xs"
    and "set xs \<subseteq> dom ts" and "ts tid = Some task"
  shows "sorted_wrt (\<lambda>x y. backlog_priority ts x \<ge> backlog_priority ts y)
     (insert_by_priority ts task tid xs)"
  using assms(1,2)
proof (induction xs)
  case Nil
  show ?case by simp
next
  case (Cons x xs)
  from Cons.prems(2) have known: "x \<in> dom ts" by simp
  show ?case
  proof (cases "lower_priority ts task x")
    case True
    with lower_priority_known [OF known assms(3)]
    have "backlog_priority ts x < backlog_priority ts tid" by simp
    with Cons.prems(1) True show ?thesis
      by (auto intro: order.trans less_imp_le)
  next
    case False
    with lower_priority_known [OF known assms(3)]
    have "backlog_priority ts tid \<le> backlog_priority ts x" by simp
    with Cons False show ?thesis by auto
  qed
qed

lemma sorted_wrt_priority_cong:
  assumes "\<forall>x \<in> set xs. backlog_priority ts' x = backlog_priority ts x"
  shows "sorted_wrt (\<lambda>x y. backlog_priority ts' x \<ge> backlog_priority ts' y) xs \<longleftrightarrow>
     sorted_wrt (\<lambda>x y. backlog_priority ts x \<ge> backlog_priority ts y) xs"
  using assms by (induction xs) auto

text \<open>In a sorted backlog, the entries before the first strictly lower one are all the
  entries that are not lower.\<close>

lemma sorted_takeWhile_filter:
  assumes "sorted_wrt (\<lambda>x y. f x \<ge> (f y :: nat)) xs"
  shows "takeWhile (\<lambda>x. f x \<ge> p) xs = filter (\<lambda>x. f x \<ge> p) xs \<and>
     dropWhile (\<lambda>x. f x \<ge> p) xs = filter (\<lambda>x. f x < p) xs"
  using assms
proof (induction xs)
  case Nil
  show ?case by simp
next
  case (Cons x xs)
  then have IH: "takeWhile (\<lambda>x. f x \<ge> p) xs = filter (\<lambda>x. f x \<ge> p) xs"
      "dropWhile (\<lambda>x. f x \<ge> p) xs = filter (\<lambda>x. f x < p) xs"
    and below: "\<forall>y \<in> set xs. f y \<le> f x"
    by simp_all
  show ?case
  proof (cases "f x \<ge> p")
    case True
    with IH show ?thesis by simp
  next
    case False
    with below have all: "\<forall>y \<in> set xs. f y < p" by auto
    then have "filter (\<lambda>x. f x \<ge> p) xs = []" "filter (\<lambda>x. f x < p) xs = xs"
      by (auto simp: filter_empty_conv filter_id_conv)
    with False show ?thesis by simp
  qed
qed

lemma queue_inv_step:
  assumes "queue_inv q" and "dom (tasks q') = dom (tasks q)"
    and "\<forall>x. backlog_priority (tasks q') x = backlog_priority (tasks q) x"
    and "taskIdCounter q' = taskIdCounter q"
    and "pendingQueue q' = filter P (pendingQueue q)"
  shows "queue_inv q'"
proof -
  from assms(1) have known: "set (pendingQueue q) \<subseteq> dom (tasks q)"
    and bounded: "\<forall>n c. (n, c) \<in> dom (tasks q) \<longrightarrow> c \<le> taskIdCounter q"
    and sorted: "sorted_wrt (\<lambda>x y. backlog_priority (tasks q) x \<ge> backlog_priority (tasks q) y)
       (pendingQueue q)"
    by (simp_all add: queue_inv_def backlog_sorted_def)
  have "sorted_wrt (\<lambda>x y. backlog_priority (tasks q) x \<ge> backlog_priority (tasks q) y)
       (filter P (pendingQueue q))"
    using sorted by (rule sorted_wrt_filter)
  moreover have "backlog_priority (tasks q') = backlog_priority (tasks q)"
  proof (rule ext)
    fix x
    from assms(3) show "backlog_priority (tasks q') x = backlog_priority (tasks q) x"
      by (rule spec)
  qed
  ultimately have "backlog_sorted q'"
    using assms(5) by (simp add: backlog_sorted_def)
  moreover have "set (pendingQueue q') \<subseteq> dom (tasks q')"
    using known assms(2,5) by auto
  moreover have "\<forall>n c. (n, c) \<in> dom (tasks q') \<longrightarrow> c \<le> taskIdCounter q'"
    using bounded assms(2,4) by simp
  ultimately show ?thesis
    by (simp add: queue_inv_def)
qed

lemma only_assigns_priority:
  assumes "only_assigns ts ts'"
  shows "backlog_priority ts' x = backlog_priority ts x" and "dom ts' = dom ts"
proof -
  have each: "ts' i = ts i \<or>
        (\<exists>t w. ts i = Some t \<and> task_status t = PENDING \<and>
           ts' i = Some (t\<lparr>task_status := ASSIGNED, assignedTo := Some w\<rparr>))" for i
    using assms unfolding only_assigns_def by (rule spec)
  from each [of x] show "backlog_priority ts' x = backlog_priority ts x"
    by (auto simp: backlog_priority_def)
  show "dom ts' = dom ts"
  proof (rule set_eqI)
    fix i
    from each [of i] have "ts' i = None \<longleftrightarrow> ts i = None"
      by auto
    then show "i \<in> dom ts' \<longleftrightarrow> i \<in> dom ts"
      by (simp add: domIff)
  qed
qed

lemma processQueue_registry:
  "registry (processQueue now s) =
     registry (fst (fold (assign_step now) (pendingQueue (queue s)) (s, [])))"
  by (simp add: processQueue_def split_beta)

lemma system_inv_processQueue:
  assumes "system_inv s"
  shows "system_inv (processQueue now s)"
proof -
  from assms have keyed: "registry_keyed (registry s)" and inv: "queue_inv (queue s)"
    by (simp_all add: system_inv_def)
  have "registry_keyed (registry (processQueue now s))"
    using fold_assign_keyed [of "(s, [])" now "pendingQueue (queue s)"] keyed
    by (simp add: processQueue_registry)
  moreover have "queue_inv (queue (processQueue now s))"
  proof (rule queue_inv_step [OF inv])
    show "dom (tasks (queue (processQueue now s))) = dom (tasks (queue s))"
      using only_assigns_priority(2) [OF processQueue_only_assigns] .
    show "\<forall>x. backlog_priority (tasks (queue (processQueue now s))) x =
        backlog_priority (tasks (queue s)) x"
      using only_assigns_priority(1) [OF processQueue_only_assigns] by simp
    show "taskIdCounter (queue (processQueue now s)) = taskIdCounter (queue s)"
      by simp
    show "pendingQueue (queue (processQueue now s)) =
        filter (\<lambda>i. i \<notin> set (snd (fold (assign_step now) (pendingQueue (queue s)) (s, []))))
          (pendingQueue (queue s))"
      by (rule processQueue_pending)
  qed
  ultimately show ?thesis
    by (simp add: system_inv_def)
qed

lemma queue_inv_enqueue:
  assumes "queue_inv q" and "tasks q tid = Some task"
  shows "queue_inv (enqueue tid q)"
proof -
  from assms(1) have known: "set (pendingQueue q) \<subseteq> dom (tasks q)"
    and bounded: "\<forall>n c. (n, c) \<in> dom (tasks q) \<longrightarrow> c \<le> taskIdCounter q"
    and sorted: "sorted_wrt (\<lambda>x y. backlog_priority (tasks q) x \<ge> backlog_priority (tasks q) y)
       (pendingQueue q)"
    by (simp_all add: queue_inv_def backlog_sorted_def)
  have q': "enqueue tid q =
      q\<lparr>pendingQueue := insert_by_priority (tasks q) task tid (pendingQueue q)\<rparr>"
    using assms(2) by (simp add: enqueue_def)
  from insert_by_priority_sorted [OF sorted known assms(2)] known bounded assms(2)
  show ?thesis
    by (auto simp: q' queue_inv_def backlog_sorted_def)
qed

lemma record_outcome_priority [simp]:
  "priority (fst (record_outcome r now t)) = priority t"
  by (simp add: record_outcome_def Let_def)

lemma queue_inv_rewrite:
  assumes "queue_inv q" and "tasks q tid = Some t" and "priority t' = priority t"
  shows "queue_inv (q\<lparr>tasks := (tasks q)(tid \<mapsto> t')\<rparr>)"
proof (rule queue_inv_step [OF assms(1), where P = "\<lambda>_. True"])
  show "dom (tasks (q\<lparr>tasks := (tasks q)(tid \<mapsto> t')\<rparr>)) = dom (tasks q)"
    using assms(2) by auto
  show "\<forall>x. backlog_priority (tasks (q\<lparr>tasks := (tasks q)(tid \<mapsto> t')\<rparr>)) x =
      backlog_priority (tasks q) x"
    using assms(2,3) by (simp add: backlog_priority_def)
qed simp_all

lemma system_inv_updateStatus:
  "system_inv s \<Longrightarrow> system_inv (updateStatus ident st now s)"
  by (simp add: system_inv_def registry_keyed_updateStatus)

lemma system_inv_handleTaskCompletion:
  assumes "system_inv s"
  shows "system_inv (handleTaskCompletion tid r now s)"
proof (cases "tasks (queue s) tid")
  case None
  with assms show ?thesis by (simp add: handleTaskCompletion_def)
next
  case (Some t0)
  define task where "task = fst (record_outcome r now t0)"
  define again where "again = snd (record_outcome r now t0)"
  define q1 where "q1 = (queue s)\<lparr>tasks := (tasks (queue s))(tid \<mapsto> task)\<rparr>"
  define s1 where "s1 = s\<lparr>queue := (if again then enqueue tid q1 else q1)\<rparr>"
  define s2 where "s2 = (case assignedTo task of
                       None \<Rightarrow> s1
                     | Some worker \<Rightarrow>
                         if worker \<noteq> [] then updateStatus worker READY now s1 else s1)"
  have call: "handleTaskCompletion tid r now s = processQueue now s2"
    using Some
    unfolding handleTaskCompletion_def s2_def s1_def q1_def task_def again_def
    by (simp add: Let_def split_beta)
  from assms have keyed: "registry_keyed (registry s)" and inv: "queue_inv (queue s)"
    by (simp_all add: system_inv_def)
  have inv1: "queue_inv q1"
    unfolding q1_def using inv Some by (rule queue_inv_rewrite) (simp add: task_def)
  have "tasks q1 tid = Some task"
    by (simp add: q1_def)
  with inv1 have "queue_inv (enqueue tid q1)"
    by (rule queue_inv_enqueue)
  with inv1 keyed have "system_inv s1"
    by (simp add: system_inv_def s1_def)
  then have "system_inv s2"
    by (simp add: s2_def system_inv_updateStatus split: option.splits)
  then show ?thesis
    unfolding call by (rule system_inv_processQueue)
qed

lemma system_inv_dispatch:
  "system_inv s \<Longrightarrow> system_inv (dispatch m now h s)"
  by (simp add: dispatch_def system_inv_handleTaskCompletion split: Handler.splits Payload.splits)

lemma system_inv_fold_dispatch:
  "system_inv s \<Longrightarrow> system_inv (fold (dispatch m now) hs s)"
  by (induction hs arbitrary: s) (simp_all add: system_inv_dispatch)

lemma system_inv_publish_completed:
  assumes "system_inv s"
  shows "system_inv (publish_completed src tid r now s)"
proof -
  have "system_inv (s\<lparr>bus := b\<rparr>)" for b
    using assms by (simp add: system_inv_def)
  then show ?thesis
    by (simp add: publish_completed_def Let_def system_inv_fold_dispatch)
qed

lemma system_inv_completeTask: "system_inv s \<Longrightarrow> system_inv (completeTask tid res now s)"
  by (simp add: completeTask_def system_inv_publish_completed split: option.splits)

lemma system_inv_failTask: "system_inv s \<Longrightarrow> system_inv (failTask tid err now s)"
  by (simp add: failTask_def system_inv_publish_completed split: option.splits)

lemma system_inv_startTask:
  assumes "system_inv s"
  shows "system_inv (startTask tid now s)"
proof (cases "tasks (queue s) tid")
  case None
  with assms show ?thesis by (simp add: startTask_def)
next
  case (Some t)
  from assms have "queue_inv (queue s)" by (simp add: system_inv_def)
  from queue_inv_rewrite [OF this Some, of "t\<lparr>task_status := IN_PROGRESS, startedAt := Some now\<rparr>"]
  show ?thesis
    using assms Some by (simp add: startTask_def system_inv_def)
qed

lemma submit_shape:
  "\<exists>task. fst (submit ty cap pl options now s) = task \<and>
     task_id task = (now, taskIdCounter (queue s) + 1) \<and>
     priority task = (case sub_priority options of None \<Rightarrow> NORMAL | Some p \<Rightarrow> p) \<and>
     task_status task = PENDING \<and> retryCount task = 0 \<and>
     maxRetries task = (case sub_maxRetries options of None \<Rightarrow> 3 | Some m \<Rightarrow> m) \<and>
     dependencies task = (case sub_dependencies options of None \<Rightarrow> [] | Some d \<Rightarrow> d) \<and>
     requiredCapability task = cap \<and>
     snd (submit ty cap pl options now s) =
       s\<lparr>queue := enqueue (task_id task)
            ((queue s)\<lparr>taskIdCounter := taskIdCounter (queue s) + 1,
                       tasks := (tasks (queue s))(task_id task \<mapsto> task)\<rparr>)\<rparr>"
  by (simp add: submit_def generateTaskId_def Let_def)

lemma system_inv_submit:
  assumes "system_inv s"
  shows "system_inv (snd (submit ty cap pl options now s))"
proof -
  from submit_shape [of ty cap pl options now s]
  obtain task where tid: "task_id task = (now, taskIdCounter (queue s) + 1)"
    and s': "snd (submit ty cap pl options now s) =
       s\<lparr>queue := enqueue (task_id task)
            ((queue s)\<lparr>taskIdCounter := taskIdCounter (queue s) + 1,
                       tasks := (tasks (queue s))(task_id task \<mapsto> task)\<rparr>)\<rparr>"
    by blast
  define q2 where "q2 = (queue s)\<lparr>taskIdCounter := taskIdCounter (queue s) + 1,
                       tasks := (tasks (queue s))(task_id task \<mapsto> task)\<rparr>"
  from assms have keyed: "registry_keyed (registry s)" and inv: "queue_inv (queue s)"
    by (simp_all add: system_inv_def)
  from inv have known: "set (pendingQueue (queue s)) \<subseteq> dom (tasks (queue s))"
    and bounded: "\<forall>n c. (n, c) \<in> dom (tasks (queue s)) \<longrightarrow> c \<le> taskIdCounter (queue s)"
    and sorted: "sorted_wrt (\<lambda>x y. backlog_priority (tasks (queue s)) x \<ge>
          backlog_priority (tasks (queue s)) y) (pendingQueue (queue s))"
    by (simp_all add: queue_inv_def backlog_sorted_def)
  have fresh: "task_id task \<notin> dom (tasks (queue s))"
    using bounded tid by fastforce
  have same: "\<forall>x \<in> set (pendingQueue (queue s)).
      backlog_priority (tasks q2) x = backlog_priority (tasks (queue s)) x"
    using known fresh by (auto simp: q2_def backlog_priority_def)
  have "backlog_sorted q2"
    using sorted sorted_wrt_priority_cong [OF same] by (simp add: backlog_sorted_def q2_def)
  moreover have "set (pendingQueue q2) \<subseteq> dom (tasks q2)"
    using known by (auto simp: q2_def)
  moreover have "\<forall>n c. (n, c) \<in> dom (tasks q2) \<longrightarrow> c \<le> taskIdCounter q2"
  proof (intro allI impI)
    fix n c
    assume "(n, c) \<in> dom (tasks q2)"
    then have "(n, c) = task_id task \<or> (n, c) \<in> dom (tasks (queue s))"
      by (auto simp: q2_def)
    then show "c \<le> taskIdCounter q2"
    proof
      assume "(n, c) = task_id task"
      with tid show ?thesis by (simp add: q2_def)
    next
      assume "(n, c) \<in> dom (tasks (queue s))"
      with bounded have "c \<le> taskIdCounter (queue s)" by blast
      then show ?thesis by (simp add: q2_def)
    qed
  qed
  ultimately have "queue_inv q2"
    by (simp add: queue_inv_def)
  moreover have "tasks q2 (task_id task) = Some task"
    by (simp add: q2_def)
  ultimately have "queue_inv (enqueue (task_id task) q2)"
    by (rule queue_inv_enqueue)
  with keyed show ?thesis
    by (simp add: s' system_inv_def q2_def)
qed

lemma system_inv_new: "system_inv new_System"
  by (simp add: system_inv_def new_System_def setupMessageHandlers_def registry_keyed_new
      queue_inv_def backlog_sorted_def new_TaskQueue_def)

lemma system_inv_register:
  "system_inv s \<Longrightarrow> system_inv (snd (register ident ty caps metadata now s))"
  using registry_keyed_register [of "registry s" ident ty caps metadata now]
  by (simp add: system_inv_def register_def split_beta)

lemma reachable_inv: "system_reachable s \<Longrightarrow> system_inv s"
proof (induction rule: system_reachable.induct)
  case reach_new_System
  show ?case by (rule system_inv_new)
next
  case (reach_sys_unregister s ident)
  then show ?case by (simp add: system_inv_def registry_keyed_unregister)
next
  case (reach_sys_heartbeat s ident now)
  then show ?case by (simp add: system_inv_def registry_keyed_heartbeat)
next
  case (reach_sys_subscribe s agentId ty n)
  then show ?case by (simp add: system_inv_def)
next
  case (reach_announce s ty src pl options now)
  then show ?case by (simp add: system_inv_def)
qed (simp_all add: system_inv_publish_completed system_inv_register system_inv_updateStatus system_inv_submit
      system_inv_processQueue system_inv_startTask system_inv_completeTask system_inv_failTask)

lemma publish_listeners [simp]:
  "listeners (bus_after (publish src ty pl options now b)) = listeners b"
  by (simp add: bus_after_def publish_def generateMessageId_def Let_def)

lemma dispatch_listeners [simp]:
  "listeners (bus (dispatch m now h s)) = listeners (bus s)"
  by (simp add: dispatch_def split: Handler.splits Payload.splits)

lemma fold_dispatch_listeners [simp]:
  "listeners (bus (fold (dispatch m now) hs s)) = listeners (bus s)"
  by (induction hs arbitrary: s) simp_all

lemma publish_completed_listeners [simp]:
  "listeners (bus (publish_completed src tid r now s)) = listeners (bus s)"
  by (simp add: publish_completed_def Let_def)

lemma completeTask_listeners [simp]:
  "listeners (bus (completeTask tid res now s)) = listeners (bus s)"
  by (simp add: completeTask_def split: option.splits)

lemma failTask_listeners [simp]:
  "listeners (bus (failTask tid err now s)) = listeners (bus s)"
  by (simp add: failTask_def split: option.splits)

lemma startTask_bus [simp]: "bus (startTask tid now s) = bus s"
  by (simp add: startTask_def split: option.splits)

lemma submit_bus [simp]: "bus (snd (submit ty cap pl options now s)) = bus s"
  by (simp add: submit_def Let_def split_beta)

lemma register_listeners [simp]:
  "listeners (bus (snd (register ident ty caps metadata now s))) = listeners (bus s)"
  by (simp add: register_def split_beta)

lemma reachable_listening: "system_reachable s \<Longrightarrow> queue_listening s"
proof (induction rule: system_reachable.induct)
  case reach_new_System
  show ?case
    by (simp add: queue_listening_def new_System_def setupMessageHandlers_def subscribe_def
        new_MessageBus_def Let_def)
next
  case (reach_sys_subscribe s agentId ty n)
  then show ?case
    by (simp add: queue_listening_def subscribe_def Let_def)
qed (simp_all add: queue_listening_def)


lemma tasks_keyedD: "tasks_keyed q \<Longrightarrow> tasks q k = Some t \<Longrightarrow> task_id t = k"
  unfolding tasks_keyed_def by blast

lemma tasks_keyedI: "(\<And>k t. tasks q k = Some t \<Longrightarrow> task_id t = k) \<Longrightarrow> tasks_keyed q"
  unfolding tasks_keyed_def by blast

lemma only_assigns_keyed:
  assumes "only_assigns (tasks q) (tasks q')" and "tasks_keyed q"
  shows "tasks_keyed q'"
proof (rule tasks_keyedI)
  fix k t
  assume t: "tasks q' k = Some t"
  from assms(1) have "tasks q' k = tasks q k \<or>
        (\<exists>t w. tasks q k = Some t \<and> task_status t = PENDING \<and>
           tasks q' k = Some (t\<lparr>task_status := ASSIGNED, assignedTo := Some w\<rparr>))"
    unfolding only_assigns_def by (rule spec)
  then show "task_id t = k"
  proof
    assume "tasks q' k = tasks q k"
    with t have "tasks q k = Some t" by simp
    with assms(2) show ?thesis by (rule tasks_keyedD)
  next
    assume "\<exists>t w. tasks q k = Some t \<and> task_status t = PENDING \<and>
           tasks q' k = Some (t\<lparr>task_status := ASSIGNED, assignedTo := Some w\<rparr>)"
    then obtain t0 w where t0: "tasks q k = Some t0"
      and "tasks q' k = Some (t0\<lparr>task_status := ASSIGNED, assignedTo := Some w\<rparr>)"
      by blast
    with t have "task_id t = task_id t0" by auto
    with tasks_keyedD [OF assms(2) t0] show ?thesis by simp
  qed
qed

lemma tasks_keyed_update:
  assumes "tasks_keyed q" and "task_id t = k"
  shows "tasks_keyed (q\<lparr>tasks := (tasks q)(k \<mapsto> t)\<rparr>)"
proof (rule tasks_keyedI)
  fix k' t'
  assume "tasks (q\<lparr>tasks := (tasks q)(k \<mapsto> t)\<rparr>) k' = Some t'"
  then have "(k' = k \<and> t' = t) \<or> tasks q k' = Some t'"
    by (auto split: if_splits)
  with assms show "task_id t' = k'"
    by (auto dest: tasks_keyedD)
qed

lemma tasks_keyed_processQueue:
  assumes "tasks_keyed (queue s)"
  shows "tasks_keyed (queue (processQueue now s))"
  using processQueue_only_assigns [of s now] assms by (rule only_assigns_keyed)

lemma record_outcome_id [simp]: "task_id (fst (record_outcome r now t)) = task_id t"
  by (simp add: record_outcome_def Let_def)

lemma tasks_keyed_handleTaskCompletion:
  assumes "tasks_keyed (queue s)"
  shows "tasks_keyed (queue (handleTaskCompletion tid r now s))"
proof (cases "tasks (queue s) tid")
  case None
  with assms show ?thesis by (simp add: handleTaskCompletion_def)
next
  case (Some t0)
  from assms Some have "task_id t0 = tid"
    by (rule tasks_keyedD)
  then have "task_id (fst (record_outcome r now t0)) = tid"
    by simp
  with assms
  have keyed: "tasks_keyed ((queue s)\<lparr>tasks := (tasks (queue s))(tid \<mapsto> fst (record_outcome r now t0))\<rparr>)"
    by (rule tasks_keyed_update)
  from handleTaskCompletion_task [OF Some, of r now]
  have "only_assigns
      (tasks ((queue s)\<lparr>tasks := (tasks (queue s))(tid \<mapsto> fst (record_outcome r now t0))\<rparr>))
      (tasks (queue (handleTaskCompletion tid r now s)))"
    by simp
  then show ?thesis
    using keyed by (rule only_assigns_keyed)
qed

lemma tasks_keyed_dispatch:
  "tasks_keyed (queue s) \<Longrightarrow> tasks_keyed (queue (dispatch m now h s))"
  by (simp add: dispatch_def tasks_keyed_handleTaskCompletion
      split: Handler.splits Payload.splits)

lemma tasks_keyed_fold_dispatch:
  "tasks_keyed (queue s) \<Longrightarrow> tasks_keyed (queue (fold (dispatch m now) hs s))"
  by (induction hs arbitrary: s) (simp_all add: tasks_keyed_dispatch)

lemma tasks_keyed_publish_completed:
  assumes "tasks_keyed (queue s)"
  shows "tasks_keyed (queue (publish_completed src tid r now s))"
proof -
  have "tasks_keyed (queue (s\<lparr>bus := b\<rparr>))" for b
    using assms by simp
  then show ?thesis
    unfolding publish_completed_def Let_def by (rule tasks_keyed_fold_dispatch)
qed

lemma tasks_keyed_submit:
  assumes "tasks_keyed (queue s)"
  shows "tasks_keyed (queue (snd (submit ty cap pl options now s)))"
proof -
  from submit_shape [of ty cap pl options now s]
  obtain task where s': "snd (submit ty cap pl options now s) =
       s\<lparr>queue := enqueue (task_id task)
            ((queue s)\<lparr>taskIdCounter := taskIdCounter (queue s) + 1,
                       tasks := (tasks (queue s))(task_id task \<mapsto> task)\<rparr>)\<rparr>"
    by blast
  have "tasks_keyed ((queue s)\<lparr>tasks := (tasks (queue s))(task_id task \<mapsto> task)\<rparr>)"
    using assms refl by (rule tasks_keyed_update)
  then have "tasks_keyed (enqueue (task_id task)
            ((queue s)\<lparr>taskIdCounter := taskIdCounter (queue s) + 1,
                       tasks := (tasks (queue s))(task_id task \<mapsto> task)\<rparr>))"
    by (intro tasks_keyedI) (auto dest: tasks_keyedD split: if_splits)
  then show ?thesis
    unfolding s' by simp
qed

lemma tasks_keyed_startTask:
  assumes "tasks_keyed (queue s)"
  shows "tasks_keyed (queue (startTask tid now s))"
proof (cases "tasks (queue s) tid")
  case None
  with assms show ?thesis by (simp add: startTask_def)
next
  case (Some t)
  from assms Some have "task_id t = tid" by (rule tasks_keyedD)
  then have "task_id (t\<lparr>task_status := IN_PROGRESS, startedAt := Some now\<rparr>) = tid"
    by simp
  with assms
  have "tasks_keyed ((queue s)\<lparr>tasks := (tasks (queue s))
      (tid \<mapsto> t\<lparr>task_status := IN_PROGRESS, startedAt := Some now\<rparr>)\<rparr>)"
    by (rule tasks_keyed_update)
  with assms Some show ?thesis
    by (simp add: startTask_def)
qed

lemma register_queue [simp]: "queue (snd (register ident ty caps metadata now s)) = queue s"
  by (simp add: register_def split_beta)

lemma reachable_tasks_keyed: "system_reachable s \<Longrightarrow> tasks_keyed (queue s)"
proof (induction rule: system_reachable.induct)
  case reach_new_System
  show ?case
    by (rule tasks_keyedI)
       (simp add: new_System_def setupMessageHandlers_def new_TaskQueue_def)
next
  case (reach_completeTask s taskId res now)
  then show ?case
    by (simp add: completeTask_def tasks_keyed_publish_completed split: option.splits)
next
  case (reach_failTask s taskId err now)
  then show ?case
    by (simp add: failTask_def tasks_keyed_publish_completed split: option.splits)
next
  case (reach_submit s ty cap pl options now)
  from reach_submit.IH show ?case by (rule tasks_keyed_submit)
next
  case (reach_processQueue s now)
  from reach_processQueue.IH show ?case by (rule tasks_keyed_processQueue)
next
  case (reach_startTask s taskId now)
  from reach_startTask.IH show ?case by (rule tasks_keyed_startTask)
next
  case (reach_publish_completed s src taskId result now)
  from reach_publish_completed.IH show ?case by (rule tasks_keyed_publish_completed)
qed simp_all

lemma announce_assignment_order:
  "assignment_order (announce src ty (TaskAssignedInfo tid a b c) options now s) =
     assignment_order s @ [tid]"
  by (simp add: assignment_order_def announce_def bus_after_def publish_def
      generateMessageId_def Let_def)

lemma updateStatus_BUSY_order [simp]:
  "assignment_order (updateStatus ident BUSY now s) = assignment_order s"
  by (simp add: assignment_order_def updateStatus_def Let_def split: option.splits)

lemma queue_update_order [simp]: "assignment_order (s\<lparr>queue := q\<rparr>) = assignment_order s"
  by (simp add: assignment_order_def)

lemma assign_step_order:
  assumes "tasks_keyed (queue (fst st))"
  shows "\<exists>new. snd (assign_step now x st) = snd st @ new \<and>
     assignment_order (fst (assign_step now x st)) = assignment_order (fst st) @ new"
proof (cases "tasks (queue (fst st)) x")
  case None
  then have "assign_step now x st = st"
    by (simp add: assign_step_def Let_def)
  then show ?thesis by simp
next
  case (Some t)
  from assms Some have id: "task_id t = x" by (rule tasks_keyedD)
  show ?thesis
  proof (cases "task_status t = PENDING \<and>
      areDependenciesMet (tasks (queue (fst st))) (dependencies t)")
    case False
    with Some have "assign_step now x st = st"
      by (auto simp: assign_step_def Let_def)
    then show ?thesis by simp
  next
    case True
    show ?thesis
    proof (cases "findReadyByCapability (requiredCapability t) (registry (fst st))")
      case Nil
      with Some True have "assign_step now x st = st"
        by (simp add: assign_step_def Let_def)
      then show ?thesis by simp
    next
      case (Cons agent others)
      with Some True id
      have "snd (assign_step now x st) = snd st @ [x]"
        and "assignment_order (fst (assign_step now x st)) = assignment_order (fst st) @ [x]"
        by (simp_all add: assign_step_def Let_def announce_assignment_order)
      then show ?thesis by blast
    qed
  qed
qed

lemma assign_step_keyed:
  "tasks_keyed (queue (fst st)) \<Longrightarrow> tasks_keyed (queue (fst (assign_step now x st)))"
  using assign_step_only_assigns [of st now x] by (rule only_assigns_keyed)

lemma fold_assign_order:
  assumes "tasks_keyed (queue (fst st))"
  shows "\<exists>new. snd (fold (assign_step now) xs st) = snd st @ new \<and>
     assignment_order (fst (fold (assign_step now) xs st)) = assignment_order (fst st) @ new"
  using assms
proof (induction xs arbitrary: st)
  case Nil
  show ?case by simp
next
  case (Cons x xs)
  from assign_step_order [OF Cons.prems, of now x]
  obtain new1 where one: "snd (assign_step now x st) = snd st @ new1"
    "assignment_order (fst (assign_step now x st)) = assignment_order (fst st) @ new1"
    by blast
  from Cons.IH [OF assign_step_keyed [OF Cons.prems]]
  obtain new2 where two:
    "snd (fold (assign_step now) xs (assign_step now x st)) = snd (assign_step now x st) @ new2"
    "assignment_order (fst (fold (assign_step now) xs (assign_step now x st))) =
       assignment_order (fst (assign_step now x st)) @ new2"
    by blast
  from one two show ?case
    by (intro exI [of _ "new1 @ new2"]) simp
qed

lemma processQueue_assignment_order:
  assumes "tasks_keyed (queue s)"
  shows "assignment_order (processQueue now s) = assignment_order s @ assigned_by_scan now s"
proof -
  from fold_assign_order [of "(s, [])" now "pendingQueue (queue s)"] assms
  obtain new where "snd (fold (assign_step now) (pendingQueue (queue s)) (s, [])) = new"
    and "assignment_order (fst (fold (assign_step now) (pendingQueue (queue s)) (s, []))) =
       assignment_order s @ new"
    by auto
  moreover have "assignment_order (processQueue now s) =
      assignment_order (fst (fold (assign_step now) (pendingQueue (queue s)) (s, [])))"
    by (simp add: processQueue_def split_beta assignment_order_def)
  ultimately show ?thesis
    by (simp add: assigned_by_scan_def)
qed

lemma fold_assign_sorted:
  assumes "sorted_wrt R (snd st)" and "\<forall>a \<in> set (snd st). \<forall>y \<in> set xs. R a y"
    and "sorted_wrt R xs"
  shows "sorted_wrt R (snd (fold (assign_step now) xs st))"
  using assms
proof (induction xs arbitrary: st)
  case Nil
  then show ?case by simp
next
  case (Cons x xs)
  from assign_step_acc [of now x st]
  have acc: "snd (assign_step now x st) = snd st \<or> snd (assign_step now x st) = snd st @ [x]"
    by blast
  have "sorted_wrt R (snd (assign_step now x st))"
    using acc Cons.prems(1,2) by (auto simp: sorted_wrt_append)
  moreover have "\<forall>a \<in> set (snd (assign_step now x st)). \<forall>y \<in> set xs. R a y"
    using acc Cons.prems(2,3) by auto
  moreover have "sorted_wrt R xs"
    using Cons.prems(3) by simp
  ultimately have "sorted_wrt R (snd (fold (assign_step now) xs (assign_step now x st)))"
    by (rule Cons.IH)
  then show ?case by simp
qed

lemma assigned_by_scan_sorted:
  assumes "backlog_sorted (queue s)"
  shows "sorted_wrt (\<lambda>x y. backlog_priority (tasks (queue s)) x \<ge>
      backlog_priority (tasks (queue s)) y) (assigned_by_scan now s)"
  unfolding assigned_by_scan_def
  using assms by (intro fold_assign_sorted) (simp_all add: backlog_sorted_def)

text \<open>
  Claim C3 (as amended). A task submitted with \<open>maxRetries = 2\<close> to a system the methods
  can build: once a failure outcome has been reported twice the task is \<open>FAILED\<close> with
  \<open>retryCount = 2\<close>; a third reported failure leaves it \<open>FAILED\<close> and raises
  \<open>retryCount\<close> to 3.
\<close>

theorem retry_exhaustion:
  assumes "system_reachable s"
    and "submit ty cap pl options now s = (task, s0)"
    and "sub_maxRetries options = Some 2"
  shows "\<exists>t2 t3.
     getTask (task_id task)
       (failTask (task_id task) e2 n2 (failTask (task_id task) e1 n1 s0)) = Some t2 \<and>
     task_status t2 = FAILED \<and> retryCount t2 = 2 \<and>
     getTask (task_id task)
       (failTask (task_id task) e3 n3
         (failTask (task_id task) e2 n2 (failTask (task_id task) e1 n1 s0))) = Some t3 \<and>
     task_status t3 = FAILED \<and> retryCount t3 = 3"
proof -
  let ?tid = "task_id task"
  let ?s1 = "failTask ?tid e1 n1 s0"
  let ?s2 = "failTask ?tid e2 n2 ?s1"
  let ?s3 = "failTask ?tid e3 n3 ?s2"
  from assms(2) have parts: "task = fst (submit ty cap pl options now s)"
    "s0 = snd (submit ty cap pl options now s)"
    by simp_all
  from reach_submit [OF assms(1), of ty cap pl options now]
  have l0: "queue_listening s0"
    unfolding parts by (rule reachable_listening)
  from submit_shape [of ty cap pl options now s] assms(3)
  have t0: "tasks (queue s0) ?tid = Some task" and c0: "retryCount task = 0" "maxRetries task = 2"
    unfolding parts by simp_all
  from failTask_step [OF l0 t0, of e1 n1] c0
  obtain t1 where l1: "queue_listening ?s1" and t1: "tasks (queue ?s1) ?tid = Some t1"
    and c1: "retryCount t1 = 1" "maxRetries t1 = 2"
    by auto
  from failTask_step [OF l1 t1, of e2 n2] c1
  obtain t2 where l2: "queue_listening ?s2" and t2: "tasks (queue ?s2) ?tid = Some t2"
    and c2: "retryCount t2 = 2" "maxRetries t2 = 2" "task_status t2 = FAILED"
    by auto
  from failTask_step [OF l2 t2, of e3 n3] c2
  obtain t3 where t3: "tasks (queue ?s3) ?tid = Some t3"
    and c3: "retryCount t3 = 3" "task_status t3 = FAILED"
    by auto
  from t2 c2 t3 c3 show ?thesis
    by (simp add: getTask_def)
qed

text \<open>
  The claim as first stated has \<open>retryCount = 2\<close> after three reports:
  \<open>handleTaskCompletion\<close> increments the counter on every failure outcome, whatever the
  task's status.
\<close>

theorem three_failures_count_three:
  "status_and_retries (getTask (10, 1)
     (failTask (10, 1) ''third'' 13
       (failTask (10, 1) ''second'' 12 (failTask (10, 1) ''first'' 11 sys_retry2))))
   = Some (FAILED, 3)"
  by code_simp

theorem retry_exhaustion_witness:
  "status_and_retries (getTask (10, 1)
     (failTask (10, 1) ''second'' 12 (failTask (10, 1) ''first'' 11 sys_retry2)))
   = Some (FAILED, 2) \<and>
   status_and_retries (getTask (10, 1)
     (failTask (10, 1) ''third'' 13
       (failTask (10, 1) ''second'' 12 (failTask (10, 1) ''first'' 11 sys_retry2))))
   = Some (FAILED, 3)"
proof -
  define task where "task = fst (submit ''render-page'' ''render'' ''{}''
      (default_options\<lparr>sub_maxRetries := Some 2\<rparr>) 10 new_System)"
  have submitted: "submit ''render-page'' ''render'' ''{}''
      (default_options\<lparr>sub_maxRetries := Some 2\<rparr>) 10 new_System = (task, sys_retry2)"
    by (simp add: task_def sys_retry2_def)
  have tid: "task_id task = (10, 1)"
    unfolding task_def by code_simp
  have two: "sub_maxRetries (default_options\<lparr>sub_maxRetries := Some 2\<rparr>) = Some 2"
    by simp
  from retry_exhaustion [OF reach_new_System submitted two,
      of "''second''" 12 "''first''" 11 "''third''" 13]
  show ?thesis
    unfolding tid by (auto simp: status_and_retries_def)
qed

text \<open>
  Claim C4. On a failure outcome the worker the task was assigned to should be set back to
  \<open>READY\<close> in both branches. In the retry branch \<open>handleTaskCompletion\<close> clears
  \<open>task.assignedTo\<close> before the test \<open>if (task.assignedTo)\<close> that frees the worker: the
  worker stays \<open>BUSY\<close>. (The \<open>FAILED\<close> branch does free it: \<open>exhausted_frees_worker\<close>.)
\<close>

theorem retry_leaves_worker_busy:
  "map_option assignedTo (getTask (10, 1) sys_assigned) = Some (Some ''w1'') \<and>
   worker_status ''w1'' sys_assigned = Some BUSY \<and>
   status_and_retries (getTask (10, 1) (failTask (10, 1) ''boom'' 12 sys_assigned))
     = Some (PENDING, 1) \<and>
   worker_status ''w1'' (failTask (10, 1) ''boom'' 12 sys_assigned) = Some BUSY"
  by code_simp

lemma exhausted_frees_worker:
  "status_and_retries (getTask (10, 1) (failTask (10, 1) ''boom'' 12 sys_assigned_once))
     = Some (FAILED, 1) \<and>
   worker_status ''w1'' (failTask (10, 1) ''boom'' 12 sys_assigned_once) = Some READY"
  by code_simp

text \<open>In the retry branch the worker is never freed: whatever the system, a \<open>BUSY\<close> worker
  of a task with retries left is \<open>BUSY\<close> after the failure outcome.\<close>

lemma retry_branch_keeps_worker_busy:
  assumes "tasks (queue s) tid = Some t" and "assignedTo t = Some worker"
    and "agents (registry s) worker = Some rec" and "agent_status rec = BUSY"
    and "\<not> success r" and "int (retryCount t + 1) < maxRetries t"
  shows "\<exists>rec'. agents (registry (handleTaskCompletion tid r now s)) worker = Some rec' \<and>
     agent_status rec' = BUSY"
proof -
  define q1 where "q1 = (queue s)\<lparr>tasks := (tasks (queue s))
      (tid \<mapsto> t\<lparr>retryCount := retryCount t + 1, task_status := PENDING, assignedTo := None\<rparr>)\<rparr>"
  define s1 where "s1 = s\<lparr>queue := enqueue tid q1\<rparr>"
  have outcome: "record_outcome r now t =
      (t\<lparr>retryCount := retryCount t + 1, task_status := PENDING, assignedTo := None\<rparr>, True)"
    using assms(5,6) by (simp add: record_outcome_def Let_def)
  have call: "handleTaskCompletion tid r now s = processQueue now s1"
    using assms(1) unfolding handleTaskCompletion_def s1_def q1_def
    by (simp add: Let_def outcome)
  have "agents (registry (fst (s1, []))) worker = Some rec"
    using assms(3) by (simp add: s1_def)
  from fold_assign_busy [OF this assms(4), of now "pendingQueue (queue s1)"]
  show ?thesis
    by (simp add: call processQueue_registry)
qed

lemma three_tasks_order:
  "map (priority_of sys_three_tasks) (pendingQueue (queue sys_three_tasks))
     = [Some HIGH, Some NORMAL, Some LOW] \<and>
   map (priority_of sys_three_tasks) (assignment_order (processQueue 40 sys_three_tasks))
     = [Some HIGH, Some NORMAL, Some LOW] \<and>
   pendingQueue (queue (processQueue 40 sys_three_tasks)) = []"
  by code_simp

text \<open>
  Claim C5. In every system the methods can build the backlog is ordered from high to low
  priority. \<open>submit\<close> puts the new task before the first backlog entry of strictly lower
  priority; the backlog is then the old entries of at least the new priority, in their old
  order, the new task, and the old entries of lower priority, in their old order (FIFO among
  equal priorities), and it is ordered again. One scan of \<open>processQueue\<close> publishes its
  assignments in the order in which it makes them, which never rises in priority. Tasks
  submitted with priorities LOW, HIGH, NORMAL while three ready workers offer the capability
  are assigned in the order HIGH, NORMAL, LOW.
\<close>

theorem submit_keeps_backlog_ordered:
  assumes "system_reachable s"
  shows "backlog_sorted (queue s) \<and>
    backlog_sorted (queue (snd (submit ty cap pl options now s))) \<and>
    pendingQueue (queue (snd (submit ty cap pl options now s))) =
      takeWhile (\<lambda>x. backlog_priority (tasks (queue s)) x \<ge>
                   priority_value (priority (fst (submit ty cap pl options now s))))
        (pendingQueue (queue s))
      @ task_id (fst (submit ty cap pl options now s)) #
      dropWhile (\<lambda>x. backlog_priority (tasks (queue s)) x \<ge>
                   priority_value (priority (fst (submit ty cap pl options now s))))
        (pendingQueue (queue s)) \<and>
    pendingQueue (queue (snd (submit ty cap pl options now s))) =
      filter (\<lambda>x. backlog_priority (tasks (queue s)) x \<ge>
                   priority_value (priority (fst (submit ty cap pl options now s))))
        (pendingQueue (queue s))
      @ task_id (fst (submit ty cap pl options now s)) #
      filter (\<lambda>x. backlog_priority (tasks (queue s)) x <
                   priority_value (priority (fst (submit ty cap pl options now s))))
        (pendingQueue (queue s)) \<and>
    assignment_order (processQueue later s) = assignment_order s @ assigned_by_scan later s \<and>
    sorted_wrt (\<lambda>x y. backlog_priority (tasks (queue s)) x \<ge> backlog_priority (tasks (queue s)) y)
      (assigned_by_scan later s) \<and>
    map (priority_of sys_three_tasks) (assignment_order (processQueue 40 sys_three_tasks))
      = [Some HIGH, Some NORMAL, Some LOW]"
proof -
  from reachable_inv [OF assms] have inv: "queue_inv (queue s)"
    by (simp add: system_inv_def)
  then have known: "set (pendingQueue (queue s)) \<subseteq> dom (tasks (queue s))"
    and bounded: "\<forall>n c. (n, c) \<in> dom (tasks (queue s)) \<longrightarrow> c \<le> taskIdCounter (queue s)"
    and sorted: "backlog_sorted (queue s)"
    by (simp_all add: queue_inv_def)
  from reachable_inv [OF reach_submit [OF assms], of ty cap pl options now]
  have sorted': "backlog_sorted (queue (snd (submit ty cap pl options now s)))"
    by (simp add: system_inv_def queue_inv_def)
  define task where "task = fst (submit ty cap pl options now s)"
  define ts2 where "ts2 = (tasks (queue s))(task_id task \<mapsto> task)"
  from submit_shape [of ty cap pl options now s]
  have tid: "task_id task = (now, taskIdCounter (queue s) + 1)"
    and s': "snd (submit ty cap pl options now s) =
       s\<lparr>queue := enqueue (task_id task)
            ((queue s)\<lparr>taskIdCounter := taskIdCounter (queue s) + 1, tasks := ts2\<rparr>)\<rparr>"
    by (simp_all add: task_def ts2_def)
  have fresh: "task_id task \<notin> dom (tasks (queue s))"
    using bounded tid by fastforce
  have pending: "pendingQueue (queue (snd (submit ty cap pl options now s))) =
      insert_by_priority ts2 task (task_id task) (pendingQueue (queue s))"
    by (simp add: s' enqueue_def ts2_def)
  have lower: "\<not> lower_priority ts2 task x \<longleftrightarrow>
      backlog_priority (tasks (queue s)) x \<ge> priority_value (priority task)"
    if "x \<in> set (pendingQueue (queue s))" for x
  proof -
    from that known fresh have "x \<noteq> task_id task" "x \<in> dom (tasks (queue s))"
      by auto
    then show ?thesis
      by (auto simp: lower_priority_def backlog_priority_def ts2_def)
  qed
  have position: "pendingQueue (queue (snd (submit ty cap pl options now s))) =
      takeWhile (\<lambda>x. backlog_priority (tasks (queue s)) x \<ge> priority_value (priority task))
        (pendingQueue (queue s))
      @ task_id task #
      dropWhile (\<lambda>x. backlog_priority (tasks (queue s)) x \<ge> priority_value (priority task))
        (pendingQueue (queue s))"
    unfolding pending insert_by_priority_position
    using lower
    by (simp cong: takeWhile_cong dropWhile_cong)
  from sorted have "sorted_wrt (\<lambda>x y. backlog_priority (tasks (queue s)) x \<ge>
      backlog_priority (tasks (queue s)) y) (pendingQueue (queue s))"
    by (simp add: backlog_sorted_def)
  from sorted_takeWhile_filter [OF this, of "priority_value (priority task)"] position
  have fifo: "pendingQueue (queue (snd (submit ty cap pl options now s))) =
      filter (\<lambda>x. backlog_priority (tasks (queue s)) x \<ge> priority_value (priority task))
        (pendingQueue (queue s))
      @ task_id task #
      filter (\<lambda>x. backlog_priority (tasks (queue s)) x < priority_value (priority task))
        (pendingQueue (queue s))"
    by simp
  note scan = processQueue_assignment_order [OF reachable_tasks_keyed [OF assms], of later]
    assigned_by_scan_sorted [OF sorted, of later]
  from sorted sorted' position fifo scan three_tasks_order show ?thesis
    unfolding task_def by simp
qed

lemma sys_w1_reachable: "system_reachable sys_w1"
  unfolding sys_w1_def by (intro system_reachable.intros)

lemma sys_two_tasks_reachable: "system_reachable sys_two_tasks"
  unfolding sys_two_tasks_def sys_three_workers_def
  by (intro system_reachable.intros sys_w1_reachable)

theorem submit_keeps_backlog_ordered_witness:
  "map (priority_of sys_two_tasks) (pendingQueue (queue sys_two_tasks)) = [Some HIGH, Some LOW] \<and>
   map (priority_of sys_three_tasks) (pendingQueue (queue sys_three_tasks))
     = [Some HIGH, Some NORMAL, Some LOW] \<and>
   backlog_sorted (queue sys_three_tasks) \<and>
   map (priority_of sys_three_tasks) (assignment_order (processQueue 40 sys_three_tasks))
     = [Some HIGH, Some NORMAL, Some LOW]"
proof -
  have before: "map (priority_of sys_two_tasks) (pendingQueue (queue sys_two_tasks))
      = [Some HIGH, Some LOW]"
    by code_simp
  have after: "map (priority_of sys_three_tasks) (pendingQueue (queue sys_three_tasks))
      = [Some HIGH, Some NORMAL, Some LOW]"
    by code_simp
  from submit_keeps_backlog_ordered [OF sys_two_tasks_reachable,
      of "''render-page''" "''render''" "''c''" "default_options\<lparr>sub_priority := Some NORMAL\<rparr>" 30]
  have "backlog_sorted (queue sys_three_tasks)"
    and "map (priority_of sys_three_tasks) (assignment_order (processQueue 40 sys_three_tasks))
      = [Some HIGH, Some NORMAL, Some LOW]"
    by (simp_all add: sys_three_tasks_def)
  with before after show ?thesis by simp
qed

lemma areDependenciesMet_iff:
  "areDependenciesMet ts ds \<longleftrightarrow>
     (\<forall>d \<in> set ds. \<exists>depTask. ts d = Some depTask \<and> task_status depTask = COMPLETED)"
  by (induction ds) (auto split: option.splits)

lemma scan_state_head:
  "pendingQueue (queue s) = tid # rest \<Longrightarrow> scan_state now tid s = s"
  by (simp add: scan_state_def)

text \<open>The scan changes the registry only by \<open>updateStatus(id, BUSY)\<close>: what such an
  update keeps, the scan keeps.\<close>

lemma fold_assign_registry:
  assumes "\<And>i r. P r \<Longrightarrow> P (registry_updateStatus i BUSY now r)" and "P (registry (fst st))"
  shows "P (registry (fst (fold (assign_step now) xs st)))"
  using assms(2)
proof (induction xs arbitrary: st)
  case Nil
  then show ?case by simp
next
  case (Cons x xs)
  from assign_step_registry [of now x st] Cons.prems assms(1)
  have "P (registry (fst (assign_step now x st)))"
    by auto
  from Cons.IH [OF this] show ?case by simp
qed

lemma scan_state_index:
  "capabilityIndex (registry (scan_state now tid s)) = capabilityIndex (registry s)"
  unfolding scan_state_def
  by (rule fold_assign_registry [where P = "\<lambda>r. capabilityIndex r = capabilityIndex (registry s)"])
     (simp_all add: registry_updateStatus_def split: option.splits)

lemma scan_state_index_sound:
  "index_sound (registry s) \<Longrightarrow> index_sound (registry (scan_state now tid s))"
  unfolding scan_state_def
  by (rule fold_assign_registry [where P = index_sound]) (simp_all add: index_sound_updateStatus)

lemma scan_state_keyed:
  "registry_keyed (registry s) \<Longrightarrow> registry_keyed (registry (scan_state now tid s))"
  unfolding scan_state_def
  by (rule fold_assign_registry [where P = registry_keyed])
     (simp_all add: registry_keyed_updateStatus)

lemma processQueue_index_sound:
  "index_sound (registry s) \<Longrightarrow> index_sound (registry (processQueue now s))"
  unfolding processQueue_registry
  by (rule fold_assign_registry [where P = index_sound]) (simp_all add: index_sound_updateStatus)

lemma updateStatus_index_sound:
  "index_sound (registry s) \<Longrightarrow> index_sound (registry (updateStatus ident st now s))"
  by (simp add: updateStatus_def Let_def index_sound_updateStatus split: option.splits)

lemma handleTaskCompletion_index_sound:
  assumes "index_sound (registry s)"
  shows "index_sound (registry (handleTaskCompletion tid r now s))"
proof (cases "tasks (queue s) tid")
  case None
  with assms show ?thesis by (simp add: handleTaskCompletion_def)
next
  case (Some t0)
  define task where "task = fst (record_outcome r now t0)"
  define again where "again = snd (record_outcome r now t0)"
  define q1 where "q1 = (queue s)\<lparr>tasks := (tasks (queue s))(tid \<mapsto> task)\<rparr>"
  define s1 where "s1 = s\<lparr>queue := (if again then enqueue tid q1 else q1)\<rparr>"
  define s2 where "s2 = (case assignedTo task of
                       None \<Rightarrow> s1
                     | Some worker \<Rightarrow>
                         if worker \<noteq> [] then updateStatus worker READY now s1 else s1)"
  have call: "handleTaskCompletion tid r now s = processQueue now s2"
    using Some
    unfolding handleTaskCompletion_def s2_def s1_def q1_def task_def again_def
    by (simp add: Let_def split_beta)
  from assms have "index_sound (registry s1)"
    by (simp add: s1_def)
  then have "index_sound (registry s2)"
    by (simp add: s2_def index_sound_updateStatus split: option.splits)
  then show ?thesis
    unfolding call by (rule processQueue_index_sound)
qed

lemma fold_dispatch_index_sound:
  "index_sound (registry s) \<Longrightarrow> index_sound (registry (fold (dispatch m now) hs s))"
proof (induction hs arbitrary: s)
  case Nil
  then show ?case by simp
next
  case (Cons h hs)
  from Cons.prems have "index_sound (registry (dispatch m now h s))"
    by (simp add: dispatch_def handleTaskCompletion_index_sound
        split: Handler.splits Payload.splits)
  from Cons.IH [OF this] show ?case by simp
qed

lemma publish_completed_index_sound:
  "index_sound (registry s) \<Longrightarrow> index_sound (registry (publish_completed src tid r now s))"
  by (simp add: publish_completed_def Let_def fold_dispatch_index_sound)

lemma completeTask_index_sound:
  "index_sound (registry s) \<Longrightarrow> index_sound (registry (completeTask tid res now s))"
  by (simp add: completeTask_def publish_completed_index_sound split: option.splits)

lemma failTask_index_sound:
  "index_sound (registry s) \<Longrightarrow> index_sound (registry (failTask tid err now s))"
  by (simp add: failTask_def publish_completed_index_sound split: option.splits)

lemma submit_registry [simp]: "registry (snd (submit ty cap pl options now s)) = registry s"
  using submit_shape [of ty cap pl options now s] by auto

lemma register_registry:
  "registry (snd (register ident ty caps metadata now s)) =
     snd (registry_register ident ty caps metadata now (registry s))"
  by (simp add: register_def split_beta)

lemma register_index_sound:
  assumes "index_sound (registry s)"
    and "\<And>rec c. agents (registry s) ident = Some rec \<Longrightarrow> advertises c rec \<Longrightarrow>
        c \<in> cap_name ` set caps"
  shows "index_sound (registry (snd (register ident ty caps metadata now s)))"
  unfolding register_registry using assms by (rule index_sound_register)

lemma new_System_index_sound: "index_sound (registry new_System)"
  by (simp add: new_System_def setupMessageHandlers_def index_sound_new)

lemma startTask_registry [simp]: "registry (startTask tid now s) = registry s"
  by (simp add: startTask_def split: option.splits)

text \<open>Without a second \<open>register\<close> of a registered id, the index agrees with the
  records.\<close>

lemma registered_once_reachable: "registered_once s \<Longrightarrow> system_reachable s"
  by (induction rule: registered_once.induct) (auto intro: system_reachable.intros)

lemma registered_once_index_sound: "registered_once s \<Longrightarrow> index_sound (registry s)"
proof (induction rule: registered_once.induct)
  case once_new_System
  show ?case by (rule new_System_index_sound)
next
  case (once_register s ident ty caps metadata now)
  then show ?case
    by (intro register_index_sound) simp_all
next
  case (once_unregister s ident)
  then show ?case by (simp add: index_sound_unregister)
next
  case (once_updateStatus s ident st now)
  from once_updateStatus.IH show ?case by (rule updateStatus_index_sound)
next
  case (once_heartbeat s ident now)
  then show ?case by (simp add: index_sound_heartbeat)
next
  case (once_processQueue s now)
  from once_processQueue.IH show ?case by (rule processQueue_index_sound)
next
  case (once_completeTask s taskId res now)
  from once_completeTask.IH show ?case by (rule completeTask_index_sound)
next
  case (once_failTask s taskId err now)
  from once_failTask.IH show ?case by (rule failTask_index_sound)
next
  case (once_publish_completed s src taskId result now)
  from once_publish_completed.IH show ?case by (rule publish_completed_index_sound)
qed simp_all

text \<open>A task that finds no ready worker when the scan reaches it is left as it is: the
  scan only makes workers \<open>BUSY\<close>.\<close>

lemma assign_step_no_worker:
  assumes "tasks (queue (fst st)) tid = Some t"
    and "findReadyByCapability (requiredCapability t) (registry (fst st)) = []"
    and "tid \<notin> set (snd st)"
  shows "tasks (queue (fst (assign_step now x st))) tid = Some t"
    and "findReadyByCapability (requiredCapability t) (registry (fst (assign_step now x st))) = []"
    and "tid \<notin> set (snd (assign_step now x st))"
proof -
  have "tasks (queue (fst (assign_step now x st))) tid = Some t \<and>
    findReadyByCapability (requiredCapability t) (registry (fst (assign_step now x st))) = [] \<and>
    tid \<notin> set (snd (assign_step now x st))"
  proof (cases rule: assign_step_cases [of now x "fst st" "snd st"])
    case skip
    with assms show ?thesis by simp
  next
    case (assign t' agent others)
    have "x \<noteq> tid"
    proof
      assume "x = tid"
      with assign(1,4) assms(1,2) show False by simp
    qed
    with assign(5,8,10) assms findReady_updateStatus_busy [OF assms(2)]
    show ?thesis by simp
  qed
  then show "tasks (queue (fst (assign_step now x st))) tid = Some t"
    and "findReadyByCapability (requiredCapability t) (registry (fst (assign_step now x st))) = []"
    and "tid \<notin> set (snd (assign_step now x st))"
    by simp_all
qed

lemma fold_assign_no_worker:
  assumes "tasks (queue (fst st)) tid = Some t"
    and "findReadyByCapability (requiredCapability t) (registry (fst st)) = []"
    and "tid \<notin> set (snd st)"
  shows "tasks (queue (fst (fold (assign_step now) xs st))) tid = Some t \<and>
     tid \<notin> set (snd (fold (assign_step now) xs st))"
  using assms
proof (induction xs arbitrary: st)
  case Nil
  then show ?case by simp
next
  case (Cons x xs)
  from Cons.IH [OF assign_step_no_worker [OF Cons.prems, of now x]]
  show ?case by simp
qed

lemma fold_assign_acc_subset:
  "set (snd (fold (assign_step now) xs st)) \<subseteq> set (snd st) \<union> set xs"
proof (induction xs arbitrary: st)
  case Nil
  show ?case by simp
next
  case (Cons x xs)
  from assign_step_acc [of now x st] Cons.IH [of "assign_step now x st"]
  show ?case by auto
qed

lemma processQueue_no_worker:
  assumes "tid \<in> set (pendingQueue (queue s))" and "tasks (queue s) tid = Some t"
    and "findReadyByCapability (requiredCapability t) (registry (scan_state now tid s)) = []"
  shows "tasks (queue (processQueue now s)) tid = Some t"
    and "tid \<in> set (pendingQueue (queue (processQueue now s)))"
proof -
  define before where "before = takeWhile (\<lambda>x. x \<noteq> tid) (pendingQueue (queue s))"
  define rest where "rest = dropWhile (\<lambda>x. x \<noteq> tid) (pendingQueue (queue s))"
  define st0 where "st0 = fold (assign_step now) before (s, [])"
  have split: "pendingQueue (queue s) = before @ rest"
    by (simp add: before_def rest_def)
  have fresh: "tid \<notin> set before"
    by (auto simp: before_def dest: set_takeWhileD)
  have at_scan: "fst st0 = scan_state now tid s"
    by (simp add: st0_def scan_state_def before_def)
  have t0: "tasks (queue (fst st0)) tid = Some t"
    using fold_assign_other [OF fresh, of now "(s, [])"] assms(2) by (simp add: st0_def)
  have acc0: "tid \<notin> set (snd st0)"
    using fold_assign_acc_subset [of now before "(s, [])"] fresh by (auto simp: st0_def)
  have ready0: "findReadyByCapability (requiredCapability t) (registry (fst st0)) = []"
    using assms(3) at_scan by simp
  have whole: "fold (assign_step now) (pendingQueue (queue s)) (s, []) =
      fold (assign_step now) rest st0"
    by (simp add: split st0_def)
  from fold_assign_no_worker [OF t0 ready0 acc0, of now rest]
  show "tasks (queue (processQueue now s)) tid = Some t"
    and "tid \<in> set (pendingQueue (queue (processQueue now s)))"
    using assms(1) by (simp_all add: processQueue_tasks processQueue_pending whole)
qed

text \<open>
  Claim C6 (as amended). For a \<open>PENDING\<close> task of a system the methods can build: while
  some dependency is not a known \<open>COMPLETED\<close> task, \<open>processQueue\<close> leaves the task record
  as it is (still \<open>PENDING\<close>, not assigned) and leaves it in the backlog. When every
  dependency is \<open>COMPLETED\<close> and the task is in the backlog, what \<open>processQueue\<close> does with
  it depends on the \<open>READY\<close> records that \<open>findReadyByCapability\<close> returns for the
  required capability when the scan reaches the task, after the backlog entries before it
  have taken theirs. If there is one, the task becomes \<open>ASSIGNED\<close> to the first of them and
  leaves the backlog, and that worker becomes \<open>BUSY\<close>; the worker is a registered \<open>READY\<close>
  record whose id the capability index lists under the required capability, and its record
  advertises the capability when the index agrees with the records (\<open>index_sound\<close>), as
  it does in every system built without a \<open>register\<close> of an id that is registered at the
  call (\<open>registered_once_index_sound\<close>). If there is none, the task stays \<open>PENDING\<close> in
  the backlog.
\<close>

theorem dependency_gating:
  assumes "system_reachable s" and "getTask tid s = Some t" and "task_status t = PENDING"
  shows "(\<not> (\<forall>d \<in> set (dependencies t).
              \<exists>depTask. getTask d s = Some depTask \<and> task_status depTask = COMPLETED) \<longrightarrow>
            getTask tid (processQueue now s) = Some t \<and>
            (tid \<in> set (pendingQueue (queue s)) \<longrightarrow>
               tid \<in> set (pendingQueue (queue (processQueue now s))))) \<and>
         ((\<forall>d \<in> set (dependencies t).
              \<exists>depTask. getTask d s = Some depTask \<and> task_status depTask = COMPLETED) \<and>
          tid \<in> set (pendingQueue (queue s)) \<longrightarrow>
            (\<forall>w ws. findReadyByCapability (requiredCapability t)
                       (registry (scan_state now tid s)) = w # ws \<longrightarrow>
               getTask tid (processQueue now s) =
                 Some (t\<lparr>task_status := ASSIGNED, assignedTo := Some (agent_id w)\<rparr>) \<and>
               map_option agent_status (getAgent (agent_id w) (registry (processQueue now s)))
                 = Some BUSY \<and>
               tid \<notin> set (pendingQueue (queue (processQueue now s))) \<and>
               agent_status w = READY \<and>
               getAgent (agent_id w) (registry (scan_state now tid s)) = Some w \<and>
               (\<exists>ids. capabilityIndex (registry s) (requiredCapability t) = Some ids \<and>
                  agent_id w \<in> set ids) \<and>
               (index_sound (registry s) \<longrightarrow> advertises (requiredCapability t) w))) \<and>
         (tid \<in> set (pendingQueue (queue s)) \<and>
          findReadyByCapability (requiredCapability t) (registry (scan_state now tid s)) = [] \<longrightarrow>
            getTask tid (processQueue now s) = Some t \<and>
            tid \<in> set (pendingQueue (queue (processQueue now s))))"
proof -
  from assms(2) have task: "tasks (queue s) tid = Some t"
    by (simp add: getTask_def)
  from reachable_inv [OF assms(1)] have keyed: "registry_keyed (registry s)"
    by (simp add: system_inv_def)
  have blocked: "getTask tid (processQueue now s) = Some t \<and>
            (tid \<in> set (pendingQueue (queue s)) \<longrightarrow>
               tid \<in> set (pendingQueue (queue (processQueue now s))))"
    if "\<not> (\<forall>d \<in> set (dependencies t).
              \<exists>depTask. getTask d s = Some depTask \<and> task_status depTask = COMPLETED)"
  proof -
    from that have unmet: "\<not> areDependenciesMet (tasks (queue s)) (dependencies t)"
      by (simp add: areDependenciesMet_iff getTask_def)
    from processQueue_blocked [OF task unmet, of now] show ?thesis
      by (simp add: getTask_def)
  qed
  have assigned: "getTask tid (processQueue now s) =
                 Some (t\<lparr>task_status := ASSIGNED, assignedTo := Some (agent_id w)\<rparr>) \<and>
               map_option agent_status (getAgent (agent_id w) (registry (processQueue now s)))
                 = Some BUSY \<and>
               tid \<notin> set (pendingQueue (queue (processQueue now s))) \<and>
               agent_status w = READY \<and>
               getAgent (agent_id w) (registry (scan_state now tid s)) = Some w \<and>
               (\<exists>ids. capabilityIndex (registry s) (requiredCapability t) = Some ids \<and>
                  agent_id w \<in> set ids) \<and>
               (index_sound (registry s) \<longrightarrow> advertises (requiredCapability t) w)"
    if met: "(\<forall>d \<in> set (dependencies t).
              \<exists>depTask. getTask d s = Some depTask \<and> task_status depTask = COMPLETED) \<and>
          tid \<in> set (pendingQueue (queue s))"
      and ready: "findReadyByCapability (requiredCapability t)
                       (registry (scan_state now tid s)) = w # ws"
    for w ws
  proof -
    from met have deps: "areDependenciesMet (tasks (queue s)) (dependencies t)"
      and queued: "tid \<in> set (pendingQueue (queue s))"
      by (simp_all add: areDependenciesMet_iff getTask_def)
    note result = processQueue_assigns [OF keyed queued task assms(3) deps ready]
    note head = findReady_head [OF scan_state_keyed [OF keyed] ready]
    from result(1)
    have "getTask tid (processQueue now s) =
        Some (t\<lparr>task_status := ASSIGNED, assignedTo := Some (agent_id w)\<rparr>)"
      by (simp add: getTask_def)
    moreover from result(2)
    have "map_option agent_status (getAgent (agent_id w) (registry (processQueue now s)))
        = Some BUSY"
      by (auto simp: getAgent_def)
    moreover note result(3) head(1)
    moreover from head(2)
    have "getAgent (agent_id w) (registry (scan_state now tid s)) = Some w"
      by (simp add: getAgent_def)
    moreover from head(3)
    have "\<exists>ids. capabilityIndex (registry s) (requiredCapability t) = Some ids \<and>
        agent_id w \<in> set ids"
      by (simp add: scan_state_index)
    moreover have "index_sound (registry s) \<longrightarrow> advertises (requiredCapability t) w"
      using head(4) scan_state_index_sound [of s now tid] by blast
    ultimately show ?thesis by blast
  qed
  have waiting: "getTask tid (processQueue now s) = Some t \<and>
            tid \<in> set (pendingQueue (queue (processQueue now s)))"
    if "tid \<in> set (pendingQueue (queue s)) \<and>
        findReadyByCapability (requiredCapability t) (registry (scan_state now tid s)) = []"
    using processQueue_no_worker [OF _ task, of now] that by (simp add: getTask_def)
  from blocked assigned waiting show ?thesis
    by blast
qed

text \<open>
  The claim as first stated asks only for a ready capable worker at the call, and has the
  task go to the first ready worker that advertises the capability. One scan gives the only
  ready worker to the first backlog entry that can use it; a later entry whose dependencies
  are all \<open>COMPLETED\<close> stays \<open>PENDING\<close>. And \<open>register\<close> of the id \<open>w1\<close> a second time,
  now with the capability \<open>archive\<close>, leaves \<open>w1\<close> in the index entry of \<open>render\<close>: a task
  that requires \<open>render\<close> goes to \<open>w1\<close>, whose record does not advertise it, and not to the
  ready worker \<open>w2\<close>, whose record does.
\<close>

theorem ready_worker_taken_by_earlier_task:
  "map_option task_status (getTask (30, 3) sys_contended) = Some PENDING \<and>
   (30, 3) \<in> set (pendingQueue (queue sys_contended)) \<and>
   map_option dependencies (getTask (30, 3) sys_contended) = Some [(10, 1)] \<and>
   map_option task_status (getTask (10, 1) sys_contended) = Some COMPLETED \<and>
   map agent_id (findReadyByCapability ''render'' (registry sys_contended)) = [''w1''] \<and>
   map_option task_status (getTask (20, 2) (processQueue 40 sys_contended)) = Some ASSIGNED \<and>
   map_option task_status (getTask (30, 3) (processQueue 40 sys_contended)) = Some PENDING \<and>
   map_option assignedTo (getTask (30, 3) (processQueue 40 sys_contended)) = Some None \<and>
   map_option requiredCapability (getTask (10, 1) sys_stale) = Some ''render'' \<and>
   map agent_id (findReadyByCapability ''render'' (registry sys_stale)) = [''w1'', ''w2''] \<and>
   map (advertises ''render'') (findReadyByCapability ''render'' (registry sys_stale))
     = [False, True] \<and>
   map_option assignedTo (getTask (10, 1) (processQueue 11 sys_stale)) = Some (Some ''w1'') \<and>
   map_option (advertises ''render'') (getAgent ''w1'' (registry (processQueue 11 sys_stale)))
     = Some False \<and>
   map_option agent_status (getAgent ''w2'' (registry (processQueue 11 sys_stale)))
     = Some READY"
  by code_simp

lemma sys_dependent_once: "registered_once sys_dependent"
  unfolding sys_dependent_def sys_dep_done_def sys_w1_def
  by (intro registered_once.intros)
     (simp add: new_System_def setupMessageHandlers_def new_AgentRegistry_def)

lemma sys_dependent_reachable: "system_reachable sys_dependent"
  using sys_dependent_once by (rule registered_once_reachable)

lemma sys_dependent_index_sound: "index_sound (registry sys_dependent)"
  using sys_dependent_once by (rule registered_once_index_sound)

lemma sys_blocked_reachable: "system_reachable sys_blocked"
  unfolding sys_blocked_def
  by (intro system_reachable.intros sys_w1_reachable)

lemma sys_contended_reachable: "system_reachable sys_contended"
  unfolding sys_contended_def sys_dep_done_def
  by (intro system_reachable.intros sys_w1_reachable)

theorem dependency_gating_witness:
  "map_option task_status (getTask (10, 1) sys_blocked) = Some PENDING \<and>
   map agent_id (findReadyByCapability ''render'' (registry sys_blocked)) = [''w1''] \<and>
   map_option task_status (getTask (30, 2) (processQueue 40 sys_blocked)) = Some PENDING \<and>
   (30, 2) \<in> set (pendingQueue (queue (processQueue 40 sys_blocked))) \<and>
   map_option task_status (getTask (10, 1) sys_dependent) = Some COMPLETED \<and>
   map_option task_status (getTask (30, 2) (processQueue 40 sys_dependent)) = Some ASSIGNED \<and>
   map_option assignedTo (getTask (30, 2) (processQueue 40 sys_dependent)) = Some (Some ''w1'') \<and>
   map_option agent_status (getAgent ''w1'' (registry (processQueue 40 sys_dependent)))
     = Some BUSY \<and>
   (30, 2) \<notin> set (pendingQueue (queue (processQueue 40 sys_dependent))) \<and>
   map (advertises ''render'') (findReadyByCapability ''render'' (registry sys_dependent))
     = [True] \<and>
   findReadyByCapability ''render'' (registry (scan_state 40 (30, 3) sys_contended)) = [] \<and>
   map_option task_status (getTask (30, 3) (processQueue 40 sys_contended)) = Some PENDING \<and>
   (30, 3) \<in> set (pendingQueue (queue (processQueue 40 sys_contended)))"
proof -
  have blocked_facts:
    "map_option task_status (getTask (30, 2) sys_blocked) = Some PENDING"
    "map_option dependencies (getTask (30, 2) sys_blocked) = Some [(10, 1)]"
    "map_option task_status (getTask (10, 1) sys_blocked) = Some PENDING"
    "map agent_id (findReadyByCapability ''render'' (registry sys_blocked)) = [''w1'']"
    "(30, 2) \<in> set (pendingQueue (queue sys_blocked))"
    by code_simp+
  then obtain b where b: "getTask (30, 2) sys_blocked = Some b" "task_status b = PENDING"
    "dependencies b = [(10, 1)]"
    by auto
  have unmet: "\<not> (\<forall>d \<in> set (dependencies b).
      \<exists>depTask. getTask d sys_blocked = Some depTask \<and> task_status depTask = COMPLETED)"
    using blocked_facts(3) b(3) by auto
  from dependency_gating [OF sys_blocked_reachable b(1,2), of 40] unmet blocked_facts(5)
  have gate: "getTask (30, 2) (processQueue 40 sys_blocked) = Some b"
    "(30, 2) \<in> set (pendingQueue (queue (processQueue 40 sys_blocked)))"
    by blast+
  have dependent_facts:
    "map_option task_status (getTask (30, 2) sys_dependent) = Some PENDING"
    "map_option dependencies (getTask (30, 2) sys_dependent) = Some [(10, 1)]"
    "map_option requiredCapability (getTask (30, 2) sys_dependent) = Some ''render''"
    "map_option task_status (getTask (10, 1) sys_dependent) = Some COMPLETED"
    "pendingQueue (queue sys_dependent) = [(30, 2)]"
    "map agent_id (findReadyByCapability ''render'' (registry sys_dependent)) = [''w1'']"
    by code_simp+
  then obtain d where d: "getTask (30, 2) sys_dependent = Some d" "task_status d = PENDING"
    "dependencies d = [(10, 1)]" "requiredCapability d = ''render''"
    by auto
  have met: "\<forall>x \<in> set (dependencies d).
      \<exists>depTask. getTask x sys_dependent = Some depTask \<and> task_status depTask = COMPLETED"
    using dependent_facts(4) d(3) by auto
  have queued: "(30, 2) \<in> set (pendingQueue (queue sys_dependent))"
    by (simp add: dependent_facts(5))
  have at_scan: "scan_state 40 (30, 2) sys_dependent = sys_dependent"
    using dependent_facts(5) by (rule scan_state_head)
  from dependent_facts(6) obtain w where
    ready: "findReadyByCapability ''render'' (registry sys_dependent) = [w]"
    and w: "agent_id w = ''w1''"
    by auto
  from dependency_gating [OF sys_dependent_reachable d(1,2), of 40] met queued
  have "\<forall>w ws. findReadyByCapability (requiredCapability d)
                       (registry (scan_state 40 (30, 2) sys_dependent)) = w # ws \<longrightarrow>
               getTask (30, 2) (processQueue 40 sys_dependent) =
                 Some (d\<lparr>task_status := ASSIGNED, assignedTo := Some (agent_id w)\<rparr>) \<and>
               map_option agent_status
                 (getAgent (agent_id w) (registry (processQueue 40 sys_dependent)))
                 = Some BUSY \<and>
               (30, 2) \<notin> set (pendingQueue (queue (processQueue 40 sys_dependent))) \<and>
               (index_sound (registry sys_dependent) \<longrightarrow> advertises (requiredCapability d) w)"
    by blast
  with ready w d(4) at_scan sys_dependent_index_sound
  have assigned: "getTask (30, 2) (processQueue 40 sys_dependent) =
        Some (d\<lparr>task_status := ASSIGNED, assignedTo := Some ''w1''\<rparr>)"
    "map_option agent_status (getAgent ''w1'' (registry (processQueue 40 sys_dependent)))
       = Some BUSY"
    "(30, 2) \<notin> set (pendingQueue (queue (processQueue 40 sys_dependent)))"
    "advertises ''render'' w"
    by auto
  have contended_facts:
    "map_option task_status (getTask (30, 3) sys_contended) = Some PENDING"
    "map_option requiredCapability (getTask (30, 3) sys_contended) = Some ''render''"
    "(30, 3) \<in> set (pendingQueue (queue sys_contended))"
    "findReadyByCapability ''render'' (registry (scan_state 40 (30, 3) sys_contended)) = []"
    by code_simp+
  then obtain c where c: "getTask (30, 3) sys_contended = Some c" "task_status c = PENDING"
    "requiredCapability c = ''render''"
    by auto
  from dependency_gating [OF sys_contended_reachable c(1,2), of 40] contended_facts(3,4) c(3)
  have left: "getTask (30, 3) (processQueue 40 sys_contended) = Some c"
    "(30, 3) \<in> set (pendingQueue (queue (processQueue 40 sys_contended)))"
    by simp_all
  from blocked_facts(3,4) gate b(2) dependent_facts(4) assigned ready contended_facts(4) left c(2)
  show ?thesis
    by simp
qed

end
